theory Spec2Isabelle
  imports Main "HOL-Library.Word"
begin

unbundle bit_operations_syntax

section \<open>Data model of the transactional ring buffer\<close>

text \<open>
  The header \<^verbatim>\<open>transactional_ring_buffer.h\<close> is a class template over
  \<^verbatim>\<open>TIMESTAMP_TYPE\<close>.  A C++ type is represented by the two facts the code uses
  about it: its \<^verbatim>\<open>sizeof\<close> and whether \<^verbatim>\<open>std::is_arithmetic\<close> holds (which
  selects the overload of \<^verbatim>\<open>llwrite\<close>/\<^verbatim>\<open>llread\<close>).  A value of such a type is its
  object representation, a list of bytes.  The template parameter becomes the first
  argument \<open>TS\<close> of every function.

  Member names end in an underscore in the source; here the underscore is written as
  a prime (\<^verbatim>\<open>end_\<close> is \<open>end'\<close>).
\<close>

type_synonym u8 = "8 word"
type_synonym u32 = "32 word"

record ctype =
  sizeof :: nat
  is_arithmetic :: bool

text \<open>\<^verbatim>\<open>uint32_t\<close>, \<^verbatim>\<open>uint64_t\<close> and \<^verbatim>\<open>float\<close> as used by the tests.\<close>

definition uint32_t :: ctype where
  "uint32_t = \<lparr>sizeof = 4, is_arithmetic = True\<rparr>"

definition uint64_t :: ctype where
  "uint64_t = \<lparr>sizeof = 8, is_arithmetic = True\<rparr>"

definition float_t :: ctype where
  "float_t = \<lparr>sizeof = 4, is_arithmetic = True\<rparr>"

text \<open>
  The private members of \<^verbatim>\<open>transactional_ring_buffer\<close>.  \<open>memory'\<close> is the pointer
  \<^verbatim>\<open>memory_\<close> together with the bytes it points to: \<open>None\<close> is \<^verbatim>\<open>nullptr\<close>.
  \<open>size'\<close> is the atomic counter \<^verbatim>\<open>size_\<close>; the model is sequential, so its loads,
  \<^verbatim>\<open>fetch_add\<close> and \<^verbatim>\<open>fetch_sub\<close> are plain reads and wrapping updates.
\<close>

record ring_buffer =
  valid' :: bool
  own_memory' :: bool
  reading' :: bool
  writing' :: bool
  capacity' :: u32
  capacity_mask' :: u32
  start' :: u32
  end' :: u32
  size' :: u32
  memory' :: "u8 list option"

text \<open>
  The default constructor gives initialisers to every member but \<^verbatim>\<open>capacity_mask_\<close>,
  \<^verbatim>\<open>start_\<close> and \<^verbatim>\<open>end_\<close>; those keep whatever the storage \<open>raw\<close> held.
\<close>

definition transactional_ring_buffer :: "ring_buffer \<Rightarrow> ring_buffer" where
  "transactional_ring_buffer raw =
     raw\<lparr>valid' := False, own_memory' := True, reading' := False, writing' := False,
         capacity' := 0, size' := 0, memory' := None\<rparr>"

text \<open>
  \<^verbatim>\<open>transaction_base\<close>: the header (\<^verbatim>\<open>header_.size\<close>, \<^verbatim>\<open>header_.timestamp\<close>),
  \<^verbatim>\<open>index_\<close> and \<^verbatim>\<open>available_\<close>.  The reference \<^verbatim>\<open>buffer_\<close> is not a field: every
  operation of a transaction takes the buffer and returns it updated.
\<close>

record transaction =
  header_size' :: u32
  header_timestamp' :: "u8 list"
  index' :: u32
  available' :: u32

definition INVALID_INDEX :: u32 where
  "INVALID_INDEX = 0xFFFFFFFF"

text \<open>The base constructor initialises \<^verbatim>\<open>index_\<close> only; \<open>raw\<close> is the storage.\<close>

definition transaction_base :: "transaction \<Rightarrow> transaction" where
  "transaction_base raw = raw\<lparr>index' := INVALID_INDEX\<rparr>"

text \<open>\<^verbatim>\<open>operator bool\<close> of a transaction.\<close>

definition tx_valid :: "transaction \<Rightarrow> bool" where
  "tx_valid t \<longleftrightarrow> index' t \<noteq> INVALID_INDEX"

definition header_size :: "ctype \<Rightarrow> u32" where
  "header_size TS = of_nat (4 + sizeof TS)"

definition min_capacity :: "ctype \<Rightarrow> u32" where
  "min_capacity TS = of_nat (4 + sizeof TS)"

text \<open>\<^verbatim>\<open>transaction_base::size\<close> and \<^verbatim>\<open>timestamp\<close> (the assertions are debug only).\<close>

definition tx_size :: "ctype \<Rightarrow> transaction \<Rightarrow> u32" where
  "tx_size TS t = header_size' t - header_size TS"

definition tx_timestamp :: "transaction \<Rightarrow> u8 list" where
  "tx_timestamp t = header_timestamp' t"

section \<open>Arena primitives\<close>

text \<open>
  \<^verbatim>\<open>memcpy\<close> into the arena at byte offset \<open>off\<close>, and out of it.  A copy that would
  leave the allocation is undefined behaviour in C++; here the bytes that fall outside
  are dropped (writing) or missing from the result (reading).
\<close>

definition memcpy_to :: "u8 list \<Rightarrow> nat \<Rightarrow> u8 list \<Rightarrow> u8 list" where
  "memcpy_to mem off src =
     map (\<lambda>j. if off \<le> j \<and> j < off + length src then src ! (j - off) else mem ! j)
       [0..<length mem]"

definition memcpy_from :: "u8 list \<Rightarrow> nat \<Rightarrow> nat \<Rightarrow> u8 list" where
  "memcpy_from mem off n = take n (drop off mem)"

definition arena :: "ring_buffer \<Rightarrow> u8 list" where
  "arena b = (case memory' b of None \<Rightarrow> [] | Some m \<Rightarrow> m)"

definition arena_update :: "(u8 list \<Rightarrow> u8 list) \<Rightarrow> ring_buffer \<Rightarrow> ring_buffer" where
  "arena_update f b = b\<lparr>memory' := map_option f (memory' b)\<rparr>"

text \<open>The object representation of a \<^verbatim>\<open>uint32_t\<close> on a little-endian host.\<close>

definition bytes_of_u32 :: "u32 \<Rightarrow> u8 list" where
  "bytes_of_u32 w = [ucast w, ucast (drop_bit 8 w), ucast (drop_bit 16 w), ucast (drop_bit 24 w)]"

definition u32_of_bytes :: "u8 list \<Rightarrow> u32" where
  "u32_of_bytes bs = foldr (\<lambda>x acc. ucast x OR push_bit 8 acc) bs 0"

definition index_of :: "ring_buffer \<Rightarrow> u32 \<Rightarrow> u32" where
  "index_of b i = i AND capacity_mask' b"

text \<open>
  \<^verbatim>\<open>llwrite(_idx, _src, _size)\<close>: the raw overload.  \<^verbatim>\<open>_idx + _size\<close> is a
  \<^verbatim>\<open>uint32_t\<close> sum and wraps.
\<close>

definition llwrite :: "u32 \<Rightarrow> u8 list \<Rightarrow> u32 \<Rightarrow> ring_buffer \<Rightarrow> ring_buffer" where
  "llwrite idx src sz b =
     (if idx + sz \<le> capacity' b then
        arena_update (\<lambda>m. memcpy_to m (unat idx) (take (unat sz) src)) b
      else
        let first_chunk_size = capacity' b - idx in
        arena_update (\<lambda>m. memcpy_to m 0
            (take (unat (sz - first_chunk_size)) (drop (unat first_chunk_size) src)))
          (arena_update (\<lambda>m. memcpy_to m (unat idx) (take (unat first_chunk_size) src)) b))"

text \<open>
  \<^verbatim>\<open>llwrite(_idx, const T&)\<close>.  For an arithmetic \<open>T\<close> the test
  \<^verbatim>\<open>_idx + sizeof(T) <= capacity_\<close> is computed in \<^verbatim>\<open>size_t\<close> and does not wrap; the
  assignment through the cast pointer stores the \<^verbatim>\<open>sizeof(T)\<close> bytes of the value.
  Any other \<open>T\<close> goes through the raw overload with \<^verbatim>\<open>(uint32_t)sizeof(T)\<close>.
\<close>

definition llwrite_T :: "ctype \<Rightarrow> u32 \<Rightarrow> u8 list \<Rightarrow> ring_buffer \<Rightarrow> ring_buffer" where
  "llwrite_T T idx v b =
     (if is_arithmetic T then
        (if unat idx + sizeof T \<le> unat (capacity' b) then
           arena_update (\<lambda>m. memcpy_to m (unat idx) (take (sizeof T) v)) b
         else
           let first_chunk_size = capacity' b - idx in
           arena_update (\<lambda>m. memcpy_to m 0
               (take (sizeof T - unat first_chunk_size) (drop (unat first_chunk_size) v)))
             (arena_update (\<lambda>m. memcpy_to m (unat idx) (take (unat first_chunk_size) v)) b))
      else llwrite idx v (of_nat (sizeof T)) b)"

text \<open>\<^verbatim>\<open>llread(_idx, _dest, _size)\<close>: the bytes stored into \<^verbatim>\<open>_dest\<close>.\<close>

definition llread :: "u32 \<Rightarrow> u32 \<Rightarrow> ring_buffer \<Rightarrow> u8 list" where
  "llread idx sz b =
     (if idx + sz \<le> capacity' b then memcpy_from (arena b) (unat idx) (unat sz)
      else
        let first_chunk_size = capacity' b - idx in
        memcpy_from (arena b) (unat idx) (unat first_chunk_size)
          @ memcpy_from (arena b) 0 (unat (sz - first_chunk_size)))"

definition llread_T :: "ctype \<Rightarrow> u32 \<Rightarrow> ring_buffer \<Rightarrow> u8 list" where
  "llread_T T idx b =
     (if is_arithmetic T then
        (if unat idx + sizeof T \<le> unat (capacity' b) then
           memcpy_from (arena b) (unat idx) (sizeof T)
         else
           let first_chunk_size = capacity' b - idx in
           memcpy_from (arena b) (unat idx) (unat first_chunk_size)
             @ memcpy_from (arena b) 0 (sizeof T - unat first_chunk_size))
      else llread idx (of_nat (sizeof T)) b)"

section \<open>Capacity selection: \<^verbatim>\<open>round_up\<close>, \<^verbatim>\<open>set_buffer\<close>, \<^verbatim>\<open>reserve\<close>, \<^verbatim>\<open>borrow\<close>\<close>

text \<open>The loop over \<^verbatim>\<open>{1, 2, 4, 8, 16}\<close> is a fold; \<^verbatim>\<open>++ret\<close> wraps.\<close>

definition round_up :: "ctype \<Rightarrow> u32 \<Rightarrow> u32" where
  "round_up TS v =
     (let ret = max v (min_capacity TS) - 1;
          ret = fold (\<lambda>i r. r OR drop_bit i r) [1, 2, 4, 8, 16] ret
      in ret + 1)"

definition set_buffer :: "u8 list option \<Rightarrow> u32 \<Rightarrow> ring_buffer \<Rightarrow> ring_buffer" where
  "set_buffer mem cap b =
     b\<lparr>memory' := mem, capacity' := cap, capacity_mask' := cap - 1,
       start' := 0, end' := 0, valid' := (mem \<noteq> None)\<rparr>"

text \<open>
  \<^verbatim>\<open>new uint8_t[n]\<close>: a non-null block of \<open>n\<close> bytes.  Its contents are indeterminate
  in C++ and zero here; a failed allocation throws and is not modelled.
\<close>

definition new_array :: "u32 \<Rightarrow> u8 list option" where
  "new_array n = Some (replicate (unat n) 0)"

definition reserve :: "ctype \<Rightarrow> u32 \<Rightarrow> ring_buffer \<Rightarrow> bool \<times> ring_buffer" where
  "reserve TS wanted_capacity b =
     (if \<not> own_memory' b then (False, b)
      else
        let new_capacity =
              round_up TS (if wanted_capacity < min_capacity TS then min_capacity TS
                           else wanted_capacity);
            b' = (if valid' b \<and> new_capacity \<le> capacity' b then
                    set_buffer (memory' b) new_capacity b
                  else
                    set_buffer (new_array new_capacity) new_capacity
                      (if memory' b \<noteq> None then b\<lparr>memory' := None\<rparr> else b))
        in (valid' b', b'))"

definition borrow :: "ctype \<Rightarrow> u8 list option \<Rightarrow> u32 \<Rightarrow> ring_buffer \<Rightarrow> bool \<times> ring_buffer" where
  "borrow TS mem cap b =
     (if mem = None \<or> (own_memory' b \<and> memory' b \<noteq> None) then (False, b)
      else
        let b1 = b\<lparr>valid' := (min_capacity TS \<le> cap \<and> cap AND (cap - 1) = 0)\<rparr> in
        if valid' b1 then (True, (set_buffer mem cap b1)\<lparr>own_memory' := False\<rparr>)
        else (False, b1))"

text \<open>The getters \<^verbatim>\<open>size\<close>, \<^verbatim>\<open>has_data\<close>, \<^verbatim>\<open>capacity\<close> and \<^verbatim>\<open>operator bool\<close>.\<close>

definition buffer_size :: "ring_buffer \<Rightarrow> u32" where
  "buffer_size b = size' b"

definition has_data :: "ring_buffer \<Rightarrow> bool" where
  "has_data b \<longleftrightarrow> 0 < size' b"

definition capacity :: "ring_buffer \<Rightarrow> u32" where
  "capacity b = capacity' b"

definition buffer_valid :: "ring_buffer \<Rightarrow> bool" where
  "buffer_valid b \<longleftrightarrow> valid' b"

section \<open>Write transactions\<close>

text \<open>
  A transaction operation takes the pair of the transaction object and the buffer it
  refers to, and returns both.
\<close>

definition write_invalidate :: "transaction \<times> ring_buffer \<Rightarrow> transaction \<times> ring_buffer" where
  "write_invalidate tb =
     (case tb of (t, b) \<Rightarrow> (t\<lparr>index' := INVALID_INDEX\<rparr>, b\<lparr>writing' := False\<rparr>))"

text \<open>
  \<^verbatim>\<open>write_transaction(buffer, timestamp)\<close>.  \<open>raw\<close> is the storage the object is
  built in: members that the constructor does not assign keep its contents.
\<close>

definition write_transaction ::
  "ctype \<Rightarrow> transaction \<Rightarrow> ring_buffer \<Rightarrow> u8 list \<Rightarrow> transaction \<times> ring_buffer" where
  "write_transaction TS raw b timestamp =
     (let t = transaction_base raw in
      if valid' b \<and> \<not> writing' b then
        let t = t\<lparr>header_size' := header_size TS\<rparr>;
            actual_available_size = capacity' b - size' b
        in if header_size' t \<le> actual_available_size then
             let t = t\<lparr>available' := actual_available_size - header_size' t\<rparr>;
                 t = t\<lparr>header_timestamp' := timestamp\<rparr>;
                 b = llwrite_T TS (index_of b (end' b + 4)) timestamp b;
                 t = t\<lparr>index' := index_of b (end' b + header_size TS)\<rparr>;
                 b = b\<lparr>writing' := True\<rparr>
             in (t, b)
           else (t, b)
      else (t, b))"

text \<open>
  \<^verbatim>\<open>try_write\<close> returns the constructed object by value; the temporary is
  materialised in the caller's variable (guaranteed elision, the build files select
  C++17), so no move constructor runs.
\<close>

definition try_write ::
  "ctype \<Rightarrow> transaction \<Rightarrow> u8 list \<Rightarrow> ring_buffer \<Rightarrow> transaction \<times> ring_buffer" where
  "try_write TS raw timestamp b = write_transaction TS raw b timestamp"

text \<open>
  The move constructor \<^verbatim>\<open>write_transaction(write_transaction&& _other)\<close>: returns
  the new object, the moved-from object and the buffer.
\<close>

definition write_transaction_move ::
  "transaction \<Rightarrow> transaction \<times> ring_buffer \<Rightarrow> transaction \<times> transaction \<times> ring_buffer" where
  "write_transaction_move raw ob =
     (case ob of (other, b) \<Rightarrow>
        let t = transaction_base raw;
            t = t\<lparr>header_size' := header_size' other\<rparr>;
            t = t\<lparr>header_timestamp' := header_timestamp' other\<rparr>;
            t = t\<lparr>index' := index' other\<rparr>;
            t = t\<lparr>available' := available' other\<rparr>;
            (other, b) = write_invalidate (other, b)
        in (t, other, b))"

text \<open>\<^verbatim>\<open>write_transaction::commit\<close>, which is also the destructor.\<close>

definition write_commit :: "transaction \<times> ring_buffer \<Rightarrow> transaction \<times> ring_buffer" where
  "write_commit tb =
     (case tb of (t, b) \<Rightarrow>
        if tx_valid t then
          let b = llwrite (end' b) (bytes_of_u32 (header_size' t)) 4 b;
              b = b\<lparr>end' := index_of b (end' b + header_size' t)\<rparr>;
              b = b\<lparr>size' := size' b + header_size' t\<rparr>
          in write_invalidate (t, b)
        else (t, b))"

text \<open>\<^verbatim>\<open>can_write\<close> may refresh the cached \<^verbatim>\<open>available_\<close>, so it returns the transaction.\<close>

definition can_write :: "u32 \<Rightarrow> transaction \<times> ring_buffer \<Rightarrow> bool \<times> transaction" where
  "can_write sz tb =
     (case tb of (t, b) \<Rightarrow>
        if \<not> tx_valid t then (False, t)
        else if available' t < sz then
          let t = t\<lparr>available' := capacity' b - size' b - header_size' t\<rparr>
          in if available' t < sz then (False, t) else (True, t)
        else (True, t))"

text \<open>\<^verbatim>\<open>push_back(const uint8_t* _data, uint32_t _size)\<close>.\<close>

definition push_back ::
  "u8 list \<Rightarrow> u32 \<Rightarrow> transaction \<times> ring_buffer \<Rightarrow> bool \<times> transaction \<times> ring_buffer" where
  "push_back data sz tb =
     (case can_write sz tb of
        (False, t) \<Rightarrow> (False, t, snd tb)
      | (True, t) \<Rightarrow>
          let b = llwrite (index' t) data sz (snd tb);
              t = t\<lparr>index' := index_of b (index' t + sz)\<rparr>;
              t = t\<lparr>available' := available' t - sz\<rparr>;
              t = t\<lparr>header_size' := header_size' t + sz\<rparr>
          in (True, t, b))"

text \<open>\<^verbatim>\<open>push_back(const T& _data)\<close> for a value \<open>v\<close> of type \<open>T\<close>.\<close>

definition push_back_T ::
  "ctype \<Rightarrow> u8 list \<Rightarrow> transaction \<times> ring_buffer \<Rightarrow> bool \<times> transaction \<times> ring_buffer" where
  "push_back_T T v tb =
     (case can_write (of_nat (sizeof T)) tb of
        (False, t) \<Rightarrow> (False, t, snd tb)
      | (True, t) \<Rightarrow>
          let b = llwrite_T T (index' t) v (snd tb);
              t = t\<lparr>index' := index_of b (index' t + of_nat (sizeof T))\<rparr>;
              t = t\<lparr>available' := available' t - of_nat (sizeof T)\<rparr>;
              t = t\<lparr>header_size' := header_size' t + of_nat (sizeof T)\<rparr>
          in (True, t, b))"

text \<open>The variadic \<^verbatim>\<open>push_back\<close>: the number of items appended before the first failure.\<close>

fun push_back_variadic ::
  "(ctype \<times> u8 list) list \<Rightarrow> transaction \<times> ring_buffer \<Rightarrow> nat \<times> transaction \<times> ring_buffer" where
  "push_back_variadic [] tb = (0, tb)"
| "push_back_variadic ((T, v) # rest) tb =
     (case push_back_T T v tb of
        (False, tb') \<Rightarrow> (0, tb')
      | (True, tb') \<Rightarrow>
          (case push_back_variadic rest tb' of (n, tb'') \<Rightarrow> (1 + n, tb'')))"

section \<open>Read transactions\<close>

definition read_invalidate :: "transaction \<times> ring_buffer \<Rightarrow> transaction \<times> ring_buffer" where
  "read_invalidate tb =
     (case tb of (t, b) \<Rightarrow> (t\<lparr>index' := INVALID_INDEX\<rparr>, b\<lparr>reading' := False\<rparr>))"

definition read_transaction ::
  "ctype \<Rightarrow> transaction \<Rightarrow> ring_buffer \<Rightarrow> transaction \<times> ring_buffer" where
  "read_transaction TS raw b =
     (let t = transaction_base raw in
      if valid' b then
        if \<not> reading' b \<and> 0 < size' b then
          let t = t\<lparr>header_size' := u32_of_bytes (llread_T uint32_t (start' b) b)\<rparr>;
              t = t\<lparr>header_timestamp' := llread_T TS (index_of b (start' b + 4)) b\<rparr>;
              t = t\<lparr>index' := index_of b (start' b + header_size TS)\<rparr>;
              t = t\<lparr>available' := header_size' t - header_size TS\<rparr>;
              b = b\<lparr>reading' := True\<rparr>
          in (t, b)
        else (t, b)
      else (t, b))"

definition try_read :: "ctype \<Rightarrow> transaction \<Rightarrow> ring_buffer \<Rightarrow> transaction \<times> ring_buffer" where
  "try_read TS raw b = read_transaction TS raw b"

definition read_transaction_move ::
  "transaction \<Rightarrow> transaction \<times> ring_buffer \<Rightarrow> transaction \<times> transaction \<times> ring_buffer" where
  "read_transaction_move raw ob =
     (case ob of (other, b) \<Rightarrow>
        let t = transaction_base raw;
            t = t\<lparr>header_size' := header_size' other\<rparr>;
            t = t\<lparr>header_timestamp' := header_timestamp' other\<rparr>;
            t = t\<lparr>index' := index' other\<rparr>;
            t = t\<lparr>available' := available' other\<rparr>;
            (other, b) = read_invalidate (other, b)
        in (t, other, b))"

text \<open>\<^verbatim>\<open>read_transaction::commit\<close>, which is also the destructor.\<close>

definition read_commit :: "transaction \<times> ring_buffer \<Rightarrow> transaction \<times> ring_buffer" where
  "read_commit tb =
     (case tb of (t, b) \<Rightarrow>
        if tx_valid t then
          let b = b\<lparr>start' := index_of b (start' b + header_size' t)\<rparr>;
              b = b\<lparr>size' := size' b - header_size' t\<rparr>;
              b = b\<lparr>reading' := False\<rparr>;
              t = t\<lparr>index' := INVALID_INDEX\<rparr>
          in (t, b)
        else (t, b))"

definition can_read :: "u32 \<Rightarrow> transaction \<Rightarrow> bool" where
  "can_read bytes t \<longleftrightarrow> tx_valid t \<and> bytes \<le> available' t"

text \<open>
  \<^verbatim>\<open>pop_front(_size, _callback)\<close>.  The callback is a \<^verbatim>\<open>std::function\<close>, which may
  be empty: \<open>callable\<close> is the test \<^verbatim>\<open>if (_callback)\<close>.  Each invocation
  \<^verbatim>\<open>_callback(&memory_[off], len)\<close> is recorded as the pair \<open>(off, len)\<close>; the result is
  the return value, the invocations in order, and the transaction.
\<close>

definition pop_front ::
  "u32 \<Rightarrow> bool \<Rightarrow> transaction \<times> ring_buffer \<Rightarrow> bool \<times> (u32 \<times> u32) list \<times> transaction" where
  "pop_front sz callable tb =
     (case tb of (t, b) \<Rightarrow>
        if \<not> can_read sz t then (False, [], t)
        else
          let size = min (available' t) sz;
              calls =
                (if callable then
                   (if index' t + size \<le> capacity' b then [(index' t, size)]
                    else
                      let first_chunk_size = capacity' b - index' t
                      in [(index' t, first_chunk_size), (0, size - first_chunk_size)])
                 else []);
              t = t\<lparr>index' := index_of b (index' t + size)\<rparr>;
              t = t\<lparr>available' := available' t - size\<rparr>
          in (True, calls, t))"

text \<open>The bytes a callback invocation can read through its pointer and length.\<close>

definition delivered :: "ring_buffer \<Rightarrow> u32 \<times> u32 \<Rightarrow> u8 list" where
  "delivered b c = memcpy_from (arena b) (unat (fst c)) (unat (snd c))"

text \<open>
  \<^verbatim>\<open>pop_front<T>()\<close>.  The local \<^verbatim>\<open>T value;\<close> has no initialiser, so for the
  arithmetic and POD types the header admits its value is indeterminate: \<open>uninit\<close> is
  whatever its storage holds.
\<close>

definition pop_front_T ::
  "ctype \<Rightarrow> u8 list \<Rightarrow> transaction \<times> ring_buffer \<Rightarrow> (u8 list \<times> bool) \<times> transaction" where
  "pop_front_T T uninit tb =
     (case tb of (t, b) \<Rightarrow>
        let value = uninit in
        if \<not> can_read (of_nat (sizeof T)) t then ((value, False), t)
        else
          let value = llread_T T (index' t) b;
              t = t\<lparr>index' := index_of b (index' t + of_nat (sizeof T))\<rparr>;
              t = t\<lparr>available' := available' t - of_nat (sizeof T)\<rparr>
          in ((value, True), t))"

text \<open>\<^verbatim>\<open>pop_front<T>(T& _dest)\<close>: the return value, the new \<^verbatim>\<open>_dest\<close>, the transaction.\<close>

definition pop_front_dest ::
  "ctype \<Rightarrow> u8 list \<Rightarrow> transaction \<times> ring_buffer \<Rightarrow> bool \<times> u8 list \<times> transaction" where
  "pop_front_dest T dest tb =
     (case tb of (t, b) \<Rightarrow>
        if \<not> can_read (of_nat (sizeof T)) t then (False, dest, t)
        else
          let dest = llread_T T (index' t) b;
              t = t\<lparr>index' := index_of b (index' t + of_nat (sizeof T))\<rparr>;
              t = t\<lparr>available' := available' t - of_nat (sizeof T)\<rparr>
          in (True, dest, t))"

section \<open>Client code: the call sequences the properties are about\<close>

text \<open>
  A producer's attempt in the style of the unit tests: \<^verbatim>\<open>try_write\<close>, then the handle
  goes out of scope, which runs \<^verbatim>\<open>commit\<close>.  The result says whether the handle was
  valid.
\<close>

definition write_attempt ::
  "ctype \<Rightarrow> transaction \<Rightarrow> u8 list \<Rightarrow> ring_buffer \<Rightarrow> bool \<times> ring_buffer" where
  "write_attempt TS raw ts b =
     (case try_write TS raw ts b of (t, b1) \<Rightarrow> (tx_valid t, snd (write_commit (t, b1))))"

fun write_attempts ::
  "ctype \<Rightarrow> transaction \<Rightarrow> u8 list list \<Rightarrow> ring_buffer \<Rightarrow> bool list \<times> ring_buffer" where
  "write_attempts TS raw [] b = ([], b)"
| "write_attempts TS raw (ts # rest) b =
     (case write_attempt TS raw ts b of (ok, b1) \<Rightarrow>
        (case write_attempts TS raw rest b1 of (oks, b2) \<Rightarrow> (ok # oks, b2)))"

text \<open>Any sequence of appends on a live write transaction; return values are ignored.\<close>

datatype append = Raw "u8 list" u32 | Typed ctype "u8 list"

fun appends :: "append list \<Rightarrow> transaction \<times> ring_buffer \<Rightarrow> transaction \<times> ring_buffer" where
  "appends [] tb = tb"
| "appends (Raw d n # rest) tb = appends rest (snd (push_back d n tb))"
| "appends (Typed T v # rest) tb = appends rest (snd (push_back_T T v tb))"

text \<open>
  The producer of the example program: open a transaction with the timestamp, append
  the payload as one raw block, commit on scope exit; invalidate when the append fails.
\<close>

definition write_record ::
  "ctype \<Rightarrow> transaction \<Rightarrow> u8 list \<times> u8 list \<Rightarrow> ring_buffer \<Rightarrow> bool \<times> ring_buffer" where
  "write_record TS raw r b =
     (case try_write TS raw (fst r) b of (t, b1) \<Rightarrow>
        if \<not> tx_valid t then (False, b1)
        else
          (case push_back (snd r) (of_nat (length (snd r))) (t, b1) of (ok, t2, b2) \<Rightarrow>
             if ok then (True, snd (write_commit (t2, b2)))
             else (False, snd (write_commit (write_invalidate (t2, b2))))))"

fun write_records ::
  "ctype \<Rightarrow> transaction \<Rightarrow> (u8 list \<times> u8 list) list \<Rightarrow> ring_buffer \<Rightarrow> bool \<times> ring_buffer" where
  "write_records TS raw [] b = (True, b)"
| "write_records TS raw (r # rs) b =
     (case write_record TS raw r b of
        (False, b1) \<Rightarrow> (False, b1)
      | (True, b1) \<Rightarrow> write_records TS raw rs b1)"

text \<open>
  The consumer: open a read transaction, take the timestamp, pop the whole payload
  through a callback that collects the bytes it is shown, commit on scope exit.
\<close>

definition read_record ::
  "ctype \<Rightarrow> transaction \<Rightarrow> ring_buffer \<Rightarrow> (u8 list \<times> u8 list) option \<times> ring_buffer" where
  "read_record TS raw b =
     (case try_read TS raw b of (t, b1) \<Rightarrow>
        if \<not> tx_valid t then (None, b1)
        else
          (case pop_front (tx_size TS t) True (t, b1) of (ok, calls, t2) \<Rightarrow>
             if ok then
               (Some (tx_timestamp t, concat (map (delivered b1) calls)),
                snd (read_commit (t2, b1)))
             else (None, snd (read_commit (t2, b1)))))"

fun read_records ::
  "ctype \<Rightarrow> transaction \<Rightarrow> nat \<Rightarrow> ring_buffer \<Rightarrow> (u8 list \<times> u8 list) option list \<times> ring_buffer"
  where
  "read_records TS raw 0 b = ([], b)"
| "read_records TS raw (Suc n) b =
     (case read_record TS raw b of (r, b1) \<Rightarrow>
        (case read_records TS raw n b1 of (rs, b2) \<Rightarrow> (r # rs, b2)))"

section \<open>Predicates of the statements\<close>

text \<open>A 32-bit value is a power of two.\<close>

definition is_pow2 :: "u32 \<Rightarrow> bool" where
  "is_pow2 w \<longleftrightarrow> (\<exists>k\<in>{0..<32}. w = 2 ^ k)"

text \<open>
  A configured arena: the capacity is a power of two, the mask is the capacity minus
  one and the block holds at least \<open>capacity\<close> bytes.
\<close>

definition arena_ok :: "ring_buffer \<Rightarrow> bool" where
  "arena_ok b \<longleftrightarrow>
     is_pow2 (capacity' b) \<and> capacity_mask' b = capacity' b - 1 \<and>
     unat (capacity' b) \<le> length (arena b)"

text \<open>
  A read transaction in step with its buffer: its cursor is inside the arena and the
  payload it still has to deliver is no longer than the arena.
\<close>

definition read_ok :: "transaction \<Rightarrow> ring_buffer \<Rightarrow> bool" where
  "read_ok t b \<longleftrightarrow> arena_ok b \<and> index' t < capacity' b \<and> available' t \<le> capacity' b"

text \<open>
  The value-initialised object \<^verbatim>\<open>T{}\<close> of an arithmetic or POD type: every byte of
  its representation is zero.
\<close>

definition value_initialised :: "ctype \<Rightarrow> u8 list" where
  "value_initialised T = replicate (sizeof T) 0"

text \<open>The \<open>n\<close> bytes of the arena from offset \<open>i\<close> on, wrapping at the capacity \<open>C\<close>.\<close>

definition ring_bytes :: "ring_buffer \<Rightarrow> nat \<Rightarrow> nat \<Rightarrow> u8 list" where
  "ring_bytes b i n = map (\<lambda>k. arena b ! ((i + k) mod unat (capacity' b))) [0..<n]"

section \<open>The arena as a ring\<close>

text \<open>
  What the two-branch copies of \<^verbatim>\<open>llwrite\<close> and \<^verbatim>\<open>llread\<close> compute on a block \<open>mem\<close>
  used as a ring of \<open>C\<close> bytes: storing \<open>src\<close> from offset \<open>i\<close> on, and viewing \<open>n\<close>
  bytes from offset \<open>i\<close> on.
\<close>

definition ring_store :: "nat \<Rightarrow> nat \<Rightarrow> u8 list \<Rightarrow> u8 list \<Rightarrow> u8 list" where
  "ring_store C i src mem =
     (if i + length src \<le> C then memcpy_to mem i src
      else memcpy_to (memcpy_to mem i (take (C - i) src)) 0 (drop (C - i) src))"

definition ring_view :: "nat \<Rightarrow> u8 list \<Rightarrow> nat \<Rightarrow> nat \<Rightarrow> u8 list" where
  "ring_view C mem i n = map (\<lambda>k. mem ! ((i + k) mod C)) [0..<n]"

text \<open>The bytes of a committed record: total size, timestamp, payload.\<close>

definition encode :: "ctype \<Rightarrow> u8 list \<times> u8 list \<Rightarrow> u8 list" where
  "encode TS r = bytes_of_u32 (of_nat (4 + sizeof TS + length (snd r))) @ fst r @ snd r"

text \<open>
  The buffer is idle and holds exactly the records \<open>recs\<close>, oldest first: the
  \<^verbatim>\<open>size_\<close> bytes from \<^verbatim>\<open>start_\<close> on are their encodings and \<^verbatim>\<open>end_\<close> is where they
  stop.
\<close>

definition holds :: "ctype \<Rightarrow> ring_buffer \<Rightarrow> (u8 list \<times> u8 list) list \<Rightarrow> bool" where
  "holds TS b recs \<longleftrightarrow>
     arena_ok b \<and> valid' b \<and> \<not> reading' b \<and> \<not> writing' b \<and>
     start' b < capacity' b \<and> size' b \<le> capacity' b \<and>
     unat (end' b) = (unat (start' b) + unat (size' b)) mod unat (capacity' b) \<and>
     list_all (\<lambda>r. length (fst r) = sizeof TS) recs \<and>
     ring_bytes b (unat (start' b)) (unat (size' b)) = concat (map (encode TS) recs)"

text \<open>The bytes a list of records occupies, headers included.\<close>

definition records_size :: "ctype \<Rightarrow> (u8 list \<times> u8 list) list \<Rightarrow> nat" where
  "records_size TS recs = sum_list (map (\<lambda>r. 4 + sizeof TS + length (snd r)) recs)"

section \<open>Concrete buffers\<close>

text \<open>Storage contents for objects under construction.\<close>

definition raw_buffer :: ring_buffer where
  "raw_buffer =
     \<lparr>valid' = False, own_memory' = False, reading' = False, writing' = False,
      capacity' = 7, capacity_mask' = 5, start' = 3, end' = 9, size' = 1, memory' = None\<rparr>"

definition raw_tx :: transaction where
  "raw_tx = \<lparr>header_size' = 0, header_timestamp' = [], index' = 0, available' = 0\<rparr>"

text \<open>\<^verbatim>\<open>transactional_ring_buffer<uint64_t> buff; buff.reserve(16);\<close>\<close>

definition buffer16 :: ring_buffer where
  "buffer16 = snd (reserve uint64_t 16 (transactional_ring_buffer raw_buffer))"

text \<open>\<^verbatim>\<open>transactional_ring_buffer<float> buff; buff.reserve(32);\<close>\<close>

definition buffer32 :: ring_buffer where
  "buffer32 = snd (reserve float_t 32 (transactional_ring_buffer raw_buffer))"

text \<open>
  \<^verbatim>\<open>transactional_ring_buffer<float> buff; buff.borrow(block, 16);\<close> with a block of 16
  bytes: a valid buffer in borrowed mode.
\<close>

definition borrowed16 :: ring_buffer where
  "borrowed16 =
     snd (borrow float_t (Some (replicate 16 0)) 16 (transactional_ring_buffer raw_buffer))"

text \<open>\<open>buffer32\<close> after one committed record with timestamp \<^verbatim>\<open>1.0f\<close> and no payload.\<close>

definition buffer32_one :: ring_buffer where
  "buffer32_one = snd (write_attempt float_t raw_tx [0, 0, 0x80, 0x3F] buffer32)"

text \<open>
  The wrap-around scenario on \<open>buffer32\<close>: a record with timestamp \<^verbatim>\<open>1.0f\<close> and 12
  payload bytes \<^verbatim>\<open>0xAA\<close> is written; then it is read and dropped; then a record with
  timestamp \<^verbatim>\<open>2.0f\<close> and 16 payload bytes \<^verbatim>\<open>0xBB\<close> is written, which spans the end of
  the arena.
\<close>

definition buffer32_rec :: ring_buffer where
  "buffer32_rec = snd (write_record float_t raw_tx ([0, 0, 0x80, 0x3F], replicate 12 0xAA) buffer32)"

definition buffer32_wrap :: ring_buffer where
  "buffer32_wrap =
     snd (write_record float_t raw_tx ([0, 0, 0, 0x40], replicate 16 0xBB)
            (snd (read_record float_t raw_tx buffer32_rec)))"

section \<open>Evaluating the concrete buffers\<close>

lemmas buffer_eval = reserve_def transactional_ring_buffer_def raw_buffer_def raw_tx_def
  uint64_t_def uint32_t_def float_t_def min_capacity_def header_size_def round_up_def
  set_buffer_def new_array_def borrow_def

lemmas tx_eval = write_attempt_def try_write_def write_transaction_def write_commit_def
  write_invalidate_def transaction_base_def INVALID_INDEX_def tx_valid_def index_of_def
  llwrite_def llwrite_T_def arena_update_def try_read_def read_transaction_def
  read_commit_def read_invalidate_def llread_def llread_T_def write_transaction_move_def
  read_transaction_move_def arena_def memcpy_from_def u32_of_bytes_def bytes_of_u32_def

lemma buffer16_fields:
  "valid' buffer16" "\<not> writing' buffer16" "capacity' buffer16 = 16" "size' buffer16 = 0"
  by (simp_all add: buffer16_def buffer_eval)

lemma buffer32_eq:
  "buffer32 = \<lparr>valid' = True, own_memory' = True, reading' = False, writing' = False,
      capacity' = 32, capacity_mask' = 31, start' = 0, end' = 0, size' = 0,
      memory' = Some (replicate 32 0)\<rparr>"
  by (simp add: buffer32_def buffer_eval)

lemma upt32: "[0..<32] = [0,1,2,3,4,5,6,7,8,9,10,11,12,13,14,15,16,17,18,19,20,21,22,23,24,25,26,27,28,29,30,31]"
  by (simp add: upt_rec)

lemma rep32: "replicate 32 (0::u8) = [0,0,0,0,0,0,0,0,0,0,0,0,0,0,0,0,0,0,0,0,0,0,0,0,0,0,0,0,0,0,0,0]"
  by (simp add: eval_nat_numeral)

lemma buffer32_one_eq:
  "buffer32_one = \<lparr>valid' = True, own_memory' = True, reading' = False, writing' = False,
      capacity' = 32, capacity_mask' = 31, start' = 0, end' = 8, size' = 8,
      memory' = Some ([8, 0, 0, 0, 0, 0, 0x80, 0x3F] @ replicate 24 0)\<rparr>"
  apply (simp add: buffer32_one_def buffer32_eq tx_eval buffer_eval Let_def memcpy_to_def upt32 rep32)
  apply (simp add: eval_nat_numeral)
  done


section \<open>Invalidating a read transaction\<close>

text \<open>
  Claim C2, as amended.  For every read transaction on which \<^verbatim>\<open>invalidate()\<close> has been
  called, the commit run by the destructor does nothing: \<^verbatim>\<open>invalidate\<close> stores
  \<^verbatim>\<open>INVALID_INDEX\<close> in \<^verbatim>\<open>index_\<close>, and \<^verbatim>\<open>commit\<close> is guarded by the validity test.
  So \<^verbatim>\<open>start_\<close> and \<^verbatim>\<open>size_\<close> keep their values, the \<^verbatim>\<open>reading_\<close> flag is clear and
  the handle is invalid.
\<close>

theorem read_invalidate_inhibits_commit:
  "start' (snd (read_commit (read_invalidate (t, b)))) = start' b \<and>
   size' (snd (read_commit (read_invalidate (t, b)))) = size' b \<and>
   \<not> reading' (snd (read_commit (read_invalidate (t, b)))) \<and>
   \<not> tx_valid (fst (read_commit (read_invalidate (t, b))))"
  by (simp add: read_commit_def read_invalidate_def tx_valid_def)

lemma try_read_one:
  "try_read float_t raw_tx buffer32_one =
     (\<lparr>header_size' = 8, header_timestamp' = [0, 0, 0x80, 0x3F], index' = 8, available' = 0\<rparr>,
      \<lparr>valid' = True, own_memory' = True, reading' = True, writing' = False,
      capacity' = 32, capacity_mask' = 31, start' = 0, end' = 8, size' = 8,
      memory' = Some ([8, 0, 0, 0, 0, 0, 0x80, 0x3F] @ replicate 24 0)\<rparr>)"
  by (simp add: buffer32_one_eq tx_eval buffer_eval Let_def)

text \<open>
  Claim C2, the amended statement at the read transaction opened on \<open>buffer32_one\<close>:
  after \<^verbatim>\<open>invalidate\<close> and the destructor, \<^verbatim>\<open>start_\<close> is still 0 and \<^verbatim>\<open>size_\<close> still 8.
\<close>

theorem read_invalidate_inhibits_commit_witness:
  "tx_valid (fst (try_read float_t raw_tx buffer32_one)) \<and>
   start' (snd (read_commit (read_invalidate (try_read float_t raw_tx buffer32_one)))) = 0 \<and>
   size' (snd (read_commit (read_invalidate (try_read float_t raw_tx buffer32_one)))) = 8"
  using read_invalidate_inhibits_commit
          [of "fst (try_read float_t raw_tx buffer32_one)" "snd (try_read float_t raw_tx buffer32_one)"]
  by (simp add: try_read_one tx_valid_def INVALID_INDEX_def)

text \<open>
  Claim C2 as stated fails on that transaction: it is valid, its header size is 8,
  \<^verbatim>\<open>start_\<close> is 0 and \<^verbatim>\<open>size_\<close> is 8, yet after \<^verbatim>\<open>invalidate\<close> and the destructor
  \<^verbatim>\<open>start_\<close> has not advanced by 8 and \<^verbatim>\<open>size_\<close> has not dropped by 8.
\<close>

theorem read_invalidate_commit_counterexample:
  "tx_valid (fst (try_read float_t raw_tx buffer32_one)) \<and>
   header_size' (fst (try_read float_t raw_tx buffer32_one)) = 8 \<and>
   start' (snd (try_read float_t raw_tx buffer32_one)) = 0 \<and>
   size' (snd (try_read float_t raw_tx buffer32_one)) = 8 \<and>
   start' (snd (read_commit (read_invalidate (try_read float_t raw_tx buffer32_one)))) \<noteq> 0 + 8 \<and>
   size' (snd (read_commit (read_invalidate (try_read float_t raw_tx buffer32_one)))) \<noteq> 8 - 8"
  by (simp add: try_read_one tx_valid_def INVALID_INDEX_def
        read_commit_def read_invalidate_def)

section \<open>Header-only fill\<close>

lemma write_attempt_no_room:
  "\<not> header_size TS \<le> capacity' b - size' b \<Longrightarrow> write_attempt TS raw ts b = (False, b)"
  by (simp add: write_attempt_def try_write_def write_transaction_def write_commit_def
        tx_valid_def transaction_base_def Let_def)

lemma write_attempt_room:
  assumes "valid' b" "\<not> writing' b" "header_size TS \<le> capacity' b - size' b"
      and "index_of b (end' b + header_size TS) \<noteq> INVALID_INDEX"
  shows "fst (write_attempt TS raw ts b)"
    and "size' (snd (write_attempt TS raw ts b)) = size' b + header_size TS"
    and "capacity' (snd (write_attempt TS raw ts b)) = capacity' b"
    and "valid' (snd (write_attempt TS raw ts b))"
    and "\<not> writing' (snd (write_attempt TS raw ts b))"
  using assms
  by (simp_all add: write_attempt_def try_write_def write_transaction_def write_commit_def
        write_invalidate_def tx_valid_def transaction_base_def Let_def index_of_def
        llwrite_def llwrite_T_def arena_update_def)

text \<open>
  Claim C7, as amended.  With capacity 16 and a \<^verbatim>\<open>uint64_t\<close> timestamp (header size
  12), three successive \<^verbatim>\<open>try_write\<close>-and-commit attempts on an empty buffer accept
  exactly one record, the first; the second and the third find \<open>16 - 12 < 12\<close> free
  bytes and get an invalid handle.  \<^verbatim>\<open>size()\<close> is 12 after each attempt.
\<close>

theorem header_only_fill_accepts_one:
  assumes "valid' b" "\<not> writing' b" "capacity' b = 16" "capacity_mask' b = 15" "size' b = 0"
  shows "fst (write_attempts uint64_t raw [ts1, ts2, ts3] b) = [True, False, False] \<and>
         size' (snd (write_attempts uint64_t raw [ts1] b)) = 12 \<and>
         size' (snd (write_attempts uint64_t raw [ts1, ts2] b)) = 12 \<and>
         size' (snd (write_attempts uint64_t raw [ts1, ts2, ts3] b)) = 12"
proof -
  have hs: "header_size uint64_t = 12"
    by (simp add: header_size_def uint64_t_def)
  have idx: "index_of b (end' b + header_size uint64_t) \<noteq> INVALID_INDEX"
  proof -
    have "index_of b (end' b + header_size uint64_t) \<le> 15"
      using assms(4) by (simp add: index_of_def word_and_le1)
    then show ?thesis by (auto simp: INVALID_INDEX_def)
  qed
  obtain b1 where b1: "write_attempt uint64_t raw ts1 b = (True, b1)"
    and s1: "size' b1 = 12" and c1: "capacity' b1 = 16"
    using write_attempt_room [OF assms(1,2) _ idx, of raw ts1] assms(3,5) hs
    by (cases "write_attempt uint64_t raw ts1 b") simp
  have full: "\<not> header_size uint64_t \<le> capacity' b1 - size' b1"
    by (simp add: s1 c1 hs)
  show ?thesis
    by (simp add: b1 s1 write_attempt_no_room [OF full])
qed

text \<open>Claim C7, the amended statement on the buffer of the unit test.\<close>

theorem header_only_fill_accepts_one_witness:
  "valid' buffer16 \<and> \<not> writing' buffer16 \<and> capacity' buffer16 = 16 \<and> size' buffer16 = 0 \<and>
   fst (write_attempts uint64_t raw_tx [[1,0,0,0,0,0,0,0], [2,0,0,0,0,0,0,0], [3,0,0,0,0,0,0,0]] buffer16)
     = [True, False, False] \<and>
   size' (snd (write_attempts uint64_t raw_tx
     [[1,0,0,0,0,0,0,0], [2,0,0,0,0,0,0,0], [3,0,0,0,0,0,0,0]] buffer16)) = 12"
  using header_only_fill_accepts_one
          [of buffer16 raw_tx "[1,0,0,0,0,0,0,0]" "[2,0,0,0,0,0,0,0]" "[3,0,0,0,0,0,0,0]"]
  by (simp add: buffer16_def buffer_eval)

text \<open>
  Claim C7 as stated fails: on the buffer of the unit test the number of accepted
  records among three attempts is not two.
\<close>

theorem header_only_fill_counterexample:
  "length (filter id (fst (write_attempts uint64_t raw_tx
     [[1,0,0,0,0,0,0,0], [2,0,0,0,0,0,0,0], [3,0,0,0,0,0,0,0]] buffer16))) \<noteq> 2"
proof -
  have "fst (write_attempts uint64_t raw_tx
     [[1,0,0,0,0,0,0,0], [2,0,0,0,0,0,0,0], [3,0,0,0,0,0,0,0]] buffer16) = [True, False, False]"
    by (simp add: buffer16_def buffer_eval tx_eval Let_def)
  then show ?thesis by simp
qed


section \<open>Powers of two\<close>

lemma nat_and_pred_pow2:
  fixes n :: nat
  shows "0 < n \<Longrightarrow> n AND (n - 1) = 0 \<Longrightarrow> \<exists>k. n = 2 ^ k"
proof (induction n rule: less_induct)
  case (less n)
  show ?case
  proof (cases "even n")
    case True
    then obtain m where m: "n = 2 * m" by (auto elim: evenE)
    with less.prems have mpos: "0 < m" by simp
    have "(n - 1) div 2 = m - 1" using m mpos by simp
    moreover have "n div 2 = m" using m by simp
    moreover have "n - 1 \<noteq> 0" using m mpos by simp
    ultimately have "n AND (n - 1) = 2 * (m AND (m - 1))"
      using less.prems(1) True by (subst and_nat_unfold) simp
    with less.prems(2) have "m AND (m - 1) = 0" by simp
    moreover have "m < n" using m mpos by simp
    ultimately obtain k where "m = 2 ^ k" using less.IH mpos by blast
    then have "n = 2 ^ Suc k" using m by simp
    then show ?thesis by blast
  next
    case False
    then obtain m where m: "n = 2 * m + 1" by (auto elim: oddE)
    show ?thesis
    proof (cases "m = 0")
      case True
      then have "n = 2 ^ 0" using m by simp
      then show ?thesis by blast
    next
      case False
      have "n AND (n - 1) = 2 * (m AND m)"
        using m False by (subst and_nat_unfold) simp
      with less.prems(2) False show ?thesis by simp
    qed
  qed
qed

lemma word_and_pred_pow2:
  fixes w :: u32
  assumes "w \<noteq> 0" "w AND (w - 1) = 0"
  shows "is_pow2 w"
proof -
  have pos: "0 < unat w" using assms(1) by (simp add: unat_gt_0)
  have "unat (w AND (w - 1)) = unat w AND (unat w - 1)"
    using assms(1) by (simp add: unsigned_and_eq unat_minus_one)
  then have "unat w AND (unat w - 1) = 0" using assms(2) by simp
  then obtain k where k: "unat w = 2 ^ k" using nat_and_pred_pow2 [OF pos] by blast
  have lt: "unat w < 2 ^ 32" using unsigned_less [of w] by simp
  have k32: "k < 32"
  proof (rule ccontr)
    assume "\<not> k < 32"
    then have "(2::nat) ^ 32 \<le> 2 ^ k" by (intro power_increasing) auto
    with lt k show False by simp
  qed
  have "w = of_nat (unat w)" by simp
  also have "\<dots> = 2 ^ k" by (simp only: k) simp
  finally show ?thesis using k32 by (auto simp: is_pow2_def)
qed

lemma pow2_and_pred:
  fixes w :: u32
  assumes "is_pow2 w"
  shows "w \<noteq> 0 \<and> w AND (w - 1) = 0"
proof -
  from assms obtain k where k: "k < 32" "w = 2 ^ k" by (auto simp: is_pow2_def)
  have "w \<noteq> 0" using k by simp
  moreover have "(2 ^ k :: u32) AND (2 ^ k - 1) = 0"
    by (rule bit_word_eqI) (auto simp: bit_simps simp flip: mask_eq_exp_minus_1)
  ultimately show ?thesis using k by simp
qed

lemma is_pow2_iff: "is_pow2 w \<longleftrightarrow> w \<noteq> 0 \<and> w AND (w - 1) = 0"
  using pow2_and_pred word_and_pred_pow2 by blast

section \<open>Rejected \<^verbatim>\<open>borrow\<close> calls\<close>

lemma min_capacity_pos: "4 + sizeof TS < 2 ^ 32 \<Longrightarrow> min_capacity TS \<noteq> 0"
proof -
  assume h: "4 + sizeof TS < 2 ^ 32"
  have "unat (of_nat (4 + sizeof TS) :: u32) = 4 + sizeof TS"
    using h unat_of_nat [where 'a = 32, of "4 + sizeof TS"] by simp
  then have "unat (min_capacity TS) \<noteq> 0" by (simp only: min_capacity_def)
  then show ?thesis by (auto simp: unat_eq_0)
qed

text \<open>
  Claim C8, as amended.  For a timestamp type whose header size fits 32 bits, every
  \<^verbatim>\<open>borrow(ptr, n)\<close> with \<open>ptr\<close> null, or \<open>n\<close> below \<^verbatim>\<open>min_capacity()\<close>, or \<open>n\<close> not a
  power of two returns false.  The state is unchanged when \<open>ptr\<close> is null or the
  buffer owns an arena; in every other case \<^verbatim>\<open>valid_\<close> is cleared, nothing else changes
  and the buffer is left not valid.  A buffer that was not valid before the call is
  left unchanged and not valid.
\<close>

theorem borrow_rejects_bad_arguments:
  assumes "4 + sizeof TS < 2 ^ 32"
      and "mem = None \<or> cap < min_capacity TS \<or> \<not> is_pow2 cap"
  shows "\<not> fst (borrow TS mem cap b) \<and>
         (snd (borrow TS mem cap b) = b \<or> snd (borrow TS mem cap b) = b\<lparr>valid' := False\<rparr>) \<and>
         (mem = None \<or> (own_memory' b \<and> memory' b \<noteq> None) \<longrightarrow> snd (borrow TS mem cap b) = b) \<and>
         (mem \<noteq> None \<and> \<not> (own_memory' b \<and> memory' b \<noteq> None) \<longrightarrow>
            snd (borrow TS mem cap b) = b\<lparr>valid' := False\<rparr> \<and>
            \<not> buffer_valid (snd (borrow TS mem cap b))) \<and>
         (\<not> valid' b \<longrightarrow> snd (borrow TS mem cap b) = b \<and> \<not> buffer_valid (snd (borrow TS mem cap b)))"
proof (cases "mem = None \<or> (own_memory' b \<and> memory' b \<noteq> None)")
  case True
  then show ?thesis by (auto simp: borrow_def buffer_valid_def)
next
  case False
  with assms(2) have bad: "cap < min_capacity TS \<or> \<not> is_pow2 cap" by auto
  have "\<not> (min_capacity TS \<le> cap \<and> cap AND (cap - 1) = 0)"
  proof
    assume h: "min_capacity TS \<le> cap \<and> cap AND (cap - 1) = 0"
    then have "cap \<noteq> 0" using min_capacity_pos [OF assms(1)] by auto
    with h have "is_pow2 cap" by (simp add: word_and_pred_pow2)
    with h bad show False by auto
  qed
  with False show ?thesis by (auto simp: borrow_def buffer_valid_def Let_def)
qed


lemma borrowed16_eq:
  "borrowed16 = \<lparr>valid' = True, own_memory' = False, reading' = False, writing' = False,
      capacity' = 16, capacity_mask' = 15, start' = 0, end' = 0, size' = 0,
      memory' = Some (replicate 16 0)\<rparr>"
  by (simp add: borrowed16_def buffer_eval)

text \<open>
  Claim C8, the amended statement at a 12-byte block (not a power of two) with a
  \<^verbatim>\<open>float\<close> timestamp: offered to a fresh buffer, which stays as it was, and offered
  to the valid borrowed buffer \<open>borrowed16\<close>, which loses \<^verbatim>\<open>valid_\<close> and nothing else.
\<close>

theorem borrow_rejects_bad_arguments_witness:
  "4 + sizeof float_t < (2::nat) ^ 32 \<and> \<not> is_pow2 12 \<and>
   \<not> fst (borrow float_t (Some (replicate 12 0)) 12 (transactional_ring_buffer raw_buffer)) \<and>
   \<not> valid' (transactional_ring_buffer raw_buffer) \<and>
   snd (borrow float_t (Some (replicate 12 0)) 12 (transactional_ring_buffer raw_buffer))
     = transactional_ring_buffer raw_buffer \<and>
   \<not> buffer_valid (snd (borrow float_t (Some (replicate 12 0)) 12 (transactional_ring_buffer raw_buffer))) \<and>
   buffer_valid borrowed16 \<and> \<not> own_memory' borrowed16 \<and>
   \<not> fst (borrow float_t (Some (replicate 12 0)) 12 borrowed16) \<and>
   snd (borrow float_t (Some (replicate 12 0)) 12 borrowed16) = borrowed16\<lparr>valid' := False\<rparr> \<and>
   \<not> buffer_valid (snd (borrow float_t (Some (replicate 12 0)) 12 borrowed16))"
proof -
  have a: "4 + sizeof float_t < (2::nat) ^ 32" by (simp add: float_t_def)
  have np: "\<not> is_pow2 12" by (simp add: is_pow2_iff)
  then have b: "Some (replicate 12 0) = None \<or> 12 < min_capacity float_t \<or> \<not> is_pow2 12" by simp
  have c: "\<not> valid' (transactional_ring_buffer raw_buffer)"
    by (simp add: transactional_ring_buffer_def)
  have d: "buffer_valid borrowed16" "\<not> own_memory' borrowed16"
    by (simp_all add: borrowed16_eq buffer_valid_def)
  have fresh: "\<not> fst (borrow float_t (Some (replicate 12 0)) 12 (transactional_ring_buffer raw_buffer)) \<and>
      snd (borrow float_t (Some (replicate 12 0)) 12 (transactional_ring_buffer raw_buffer))
        = transactional_ring_buffer raw_buffer \<and>
      \<not> buffer_valid (snd (borrow float_t (Some (replicate 12 0)) 12
          (transactional_ring_buffer raw_buffer)))"
    using borrow_rejects_bad_arguments [OF a b, of "transactional_ring_buffer raw_buffer"] c
    by (simp add: buffer_valid_def)
  have borrowed: "\<not> fst (borrow float_t (Some (replicate 12 0)) 12 borrowed16) \<and>
      snd (borrow float_t (Some (replicate 12 0)) 12 borrowed16) = borrowed16\<lparr>valid' := False\<rparr> \<and>
      \<not> buffer_valid (snd (borrow float_t (Some (replicate 12 0)) 12 borrowed16))"
    using borrow_rejects_bad_arguments [OF a b, of borrowed16] d(2) by (simp add: buffer_valid_def)
  show ?thesis using a np c d fresh borrowed by (simp add: buffer_valid_def)
qed

text \<open>
  Claim C8 as stated fails on a buffer that is already usable: after \<^verbatim>\<open>reserve(32)\<close>,
  \<^verbatim>\<open>borrow(nullptr, 7)\<close> returns false and the buffer is still valid.
\<close>

theorem borrow_null_counterexample:
  "\<not> fst (borrow float_t None 7 buffer32) \<and> buffer_valid (snd (borrow float_t None 7 buffer32))"
  by (simp add: borrow_def buffer32_eq buffer_valid_def)

section \<open>Reconfiguring the arena\<close>

lemma set_buffer_fields:
  "start' (set_buffer m c b) = 0" "end' (set_buffer m c b) = 0"
  "size' (set_buffer m c b) = size' b" "capacity' (set_buffer m c b) = c"
  "valid' (set_buffer m c b) = (m \<noteq> None)"
  by (simp_all add: set_buffer_def)

text \<open>
  Claim C10.  Every successful \<^verbatim>\<open>reserve\<close> or \<^verbatim>\<open>borrow\<close> leaves \<^verbatim>\<open>start_\<close> and
  \<^verbatim>\<open>end_\<close> at 0 and does not touch the counter \<^verbatim>\<open>size_\<close>.  In particular
  \<^verbatim>\<open>reserve\<close> on an owned, valid buffer that holds committed records succeeds and
  \<^verbatim>\<open>size()\<close> keeps its non-zero value.
\<close>

theorem reserve_borrow_keep_size:
  "(fst (reserve TS n b) \<longrightarrow>
      start' (snd (reserve TS n b)) = 0 \<and> end' (snd (reserve TS n b)) = 0 \<and>
      size' (snd (reserve TS n b)) = size' b) \<and>
   (fst (borrow TS mem cap b) \<longrightarrow>
      start' (snd (borrow TS mem cap b)) = 0 \<and> end' (snd (borrow TS mem cap b)) = 0 \<and>
      size' (snd (borrow TS mem cap b)) = size' b) \<and>
   (own_memory' b \<and> valid' b \<and> memory' b \<noteq> None \<and> size' b \<noteq> 0 \<longrightarrow>
      fst (reserve TS n b) \<and> buffer_size (snd (reserve TS n b)) = buffer_size b \<and>
      buffer_size (snd (reserve TS n b)) \<noteq> 0)"
  by (simp add: reserve_def borrow_def Let_def set_buffer_fields buffer_size_def new_array_def)

text \<open>
  Claim C10 at \<^verbatim>\<open>reserve(64)\<close> on \<open>buffer32_one\<close>, which holds one record of 8 bytes,
  and at \<^verbatim>\<open>borrow\<close> of a 16-byte block on a fresh buffer.
\<close>

theorem reserve_borrow_keep_size_witness:
  "fst (reserve float_t 64 buffer32_one) \<and>
   start' (snd (reserve float_t 64 buffer32_one)) = 0 \<and>
   end' (snd (reserve float_t 64 buffer32_one)) = 0 \<and>
   size' (snd (reserve float_t 64 buffer32_one)) = 8 \<and>
   fst (borrow float_t (Some (replicate 16 0)) 16 (transactional_ring_buffer raw_buffer)) \<and>
   start' (snd (borrow float_t (Some (replicate 16 0)) 16 (transactional_ring_buffer raw_buffer))) = 0 \<and>
   end' (snd (borrow float_t (Some (replicate 16 0)) 16 (transactional_ring_buffer raw_buffer))) = 0 \<and>
   size' (snd (borrow float_t (Some (replicate 16 0)) 16 (transactional_ring_buffer raw_buffer))) = 0 \<and>
   own_memory' buffer32_one \<and> valid' buffer32_one \<and> memory' buffer32_one \<noteq> None \<and>
   size' buffer32_one \<noteq> 0 \<and> buffer_size (snd (reserve float_t 64 buffer32_one)) = 8"
  using reserve_borrow_keep_size
          [of float_t 64 buffer32_one "Some (replicate 16 0)" 16]
        reserve_borrow_keep_size
          [of float_t 64 "transactional_ring_buffer raw_buffer" "Some (replicate 16 0)" 16]
  by (simp add: buffer32_one_eq buffer_eval buffer_size_def)

section \<open>One transaction per role\<close>

text \<open>
  Claim C3 fails after a move construction.  On \<open>buffer32\<close> a write transaction is
  opened and moved into a second object; the move constructor invalidates the source
  through \<^verbatim>\<open>invalidate()\<close>, which also clears \<^verbatim>\<open>writing_\<close>.  The moved-to object is
  valid, and so is the handle of the next \<^verbatim>\<open>try_write\<close>: two write transactions are
  live.  The same holds for read transactions on \<open>buffer32_one\<close>.
\<close>

theorem move_allows_second_transaction:
  "tx_valid (fst (try_write float_t raw_tx [0, 0, 0, 0] buffer32)) \<and>
   tx_valid (fst (write_transaction_move raw_tx (try_write float_t raw_tx [0, 0, 0, 0] buffer32))) \<and>
   tx_valid (fst (try_write float_t raw_tx [0, 0, 0x80, 0x3F]
      (snd (snd (write_transaction_move raw_tx (try_write float_t raw_tx [0, 0, 0, 0] buffer32)))))) \<and>
   tx_valid (fst (try_read float_t raw_tx buffer32_one)) \<and>
   tx_valid (fst (read_transaction_move raw_tx (try_read float_t raw_tx buffer32_one))) \<and>
   tx_valid (fst (try_read float_t raw_tx
      (snd (snd (read_transaction_move raw_tx (try_read float_t raw_tx buffer32_one))))))"
  by (simp add: buffer32_one_eq buffer32_eq tx_eval buffer_eval Let_def)

text \<open>
  Without a move the flags do what the claim says.  \<^verbatim>\<open>invalidate()\<close> clears the
  flag whatever the state of the handle it is called on.
\<close>

lemma write_invalidate_clears_flag: "\<not> writing' (snd (write_invalidate (t, b)))"
  by (simp add: write_invalidate_def)

lemma read_invalidate_clears_flag: "\<not> reading' (snd (read_invalidate (t, b)))"
  by (simp add: read_invalidate_def)

lemma try_write_while_writing:
  "writing' b \<Longrightarrow> \<not> tx_valid (fst (try_write TS raw ts b)) \<and> snd (try_write TS raw ts b) = b"
  by (simp add: try_write_def write_transaction_def transaction_base_def tx_valid_def Let_def)

lemma try_read_while_reading:
  "reading' b \<Longrightarrow> \<not> tx_valid (fst (try_read TS raw b)) \<and> snd (try_read TS raw b) = b"
  by (simp add: try_read_def read_transaction_def transaction_base_def tx_valid_def Let_def)

lemma try_write_sets_flag:
  "tx_valid (fst (try_write TS raw ts b)) \<Longrightarrow> writing' (snd (try_write TS raw ts b))"
  by (simp add: try_write_def write_transaction_def transaction_base_def tx_valid_def Let_def
      split: if_splits)

lemma try_read_sets_flag:
  "tx_valid (fst (try_read TS raw b)) \<Longrightarrow> reading' (snd (try_read TS raw b))"
  by (simp add: try_read_def read_transaction_def transaction_base_def tx_valid_def Let_def
      split: if_splits)

section \<open>Invalidating a write transaction\<close>

text \<open>Arena writes and appends change no member of the buffer but the arena bytes.\<close>

lemma llwrite_frame: "\<exists>m. llwrite idx src sz b = b\<lparr>memory' := m\<rparr>"
  by (auto simp: llwrite_def arena_update_def Let_def)

lemma llwrite_T_frame: "\<exists>m. llwrite_T T idx v b = b\<lparr>memory' := m\<rparr>"
  using llwrite_frame [of idx v "of_nat (sizeof T)" b]
  by (auto simp: llwrite_T_def arena_update_def Let_def)

lemma push_back_frame: "\<exists>m. snd (snd (push_back d n (t, b))) = b\<lparr>memory' := m\<rparr>"
proof (cases "fst (can_write n (t, b))")
  case True
  then obtain t1 where "can_write n (t, b) = (True, t1)" by (cases "can_write n (t, b)") auto
  then show ?thesis
    using llwrite_frame [of "index' t1" d n b] by (auto simp: push_back_def Let_def)
next
  case False
  then obtain t1 where "can_write n (t, b) = (False, t1)" by (cases "can_write n (t, b)") auto
  then have "snd (snd (push_back d n (t, b))) = b\<lparr>memory' := memory' b\<rparr>"
    by (simp add: push_back_def)
  then show ?thesis by blast
qed

lemma push_back_T_frame: "\<exists>m. snd (snd (push_back_T T v (t, b))) = b\<lparr>memory' := m\<rparr>"
proof (cases "fst (can_write (of_nat (sizeof T)) (t, b))")
  case True
  then obtain t1 where "can_write (of_nat (sizeof T)) (t, b) = (True, t1)"
    by (cases "can_write (of_nat (sizeof T)) (t, b)") auto
  then show ?thesis
    using llwrite_T_frame [of T "index' t1" v b] by (auto simp: push_back_T_def Let_def)
next
  case False
  then obtain t1 where "can_write (of_nat (sizeof T)) (t, b) = (False, t1)"
    by (cases "can_write (of_nat (sizeof T)) (t, b)") auto
  then have "snd (snd (push_back_T T v (t, b))) = b\<lparr>memory' := memory' b\<rparr>"
    by (simp add: push_back_T_def)
  then show ?thesis by blast
qed

lemma appends_frame: "\<exists>m. snd (appends ops (t, b)) = b\<lparr>memory' := m\<rparr>"
proof (induction ops arbitrary: t b)
  case Nil
  have "snd (appends [] (t, b)) = b\<lparr>memory' := memory' b\<rparr>" by simp
  then show ?case by blast
next
  case (Cons a ops)
  show ?case
  proof (cases a)
    case (Raw d n)
    obtain ok t1 b1 where p: "push_back d n (t, b) = (ok, t1, b1)"
      by (cases "push_back d n (t, b)") auto
    with push_back_frame [of d n t b] obtain m1 where "b1 = b\<lparr>memory' := m1\<rparr>" by auto
    with Cons.IH [of t1 b1] p Raw show ?thesis by auto
  next
    case (Typed T v)
    obtain ok t1 b1 where p: "push_back_T T v (t, b) = (ok, t1, b1)"
      by (cases "push_back_T T v (t, b)") auto
    with push_back_T_frame [of T v t b] obtain m1 where "b1 = b\<lparr>memory' := m1\<rparr>" by auto
    with Cons.IH [of t1 b1] p Typed show ?thesis by auto
  qed
qed

lemma try_write_valid_cases:
  assumes "tx_valid (fst (try_write TS raw ts b))"
  shows "valid' b" "\<not> writing' b" "header_size TS \<le> capacity' b - size' b"
    and "index_of b (end' b + header_size TS) \<noteq> INVALID_INDEX"
    and "\<exists>m. snd (try_write TS raw ts b) = b\<lparr>memory' := m, writing' := True\<rparr>"
    and "index' (fst (try_write TS raw ts b)) = index_of b (end' b + header_size TS)"
  using assms llwrite_T_frame [of TS "index_of b (end' b + 4)" ts b]
  by (auto simp: try_write_def write_transaction_def transaction_base_def tx_valid_def Let_def
        index_of_def split: if_splits)

lemma try_write_valid_intro:
  assumes "valid' b" "\<not> writing' b" "header_size TS \<le> capacity' b - size' b"
      and "index_of b (end' b + header_size TS) \<noteq> INVALID_INDEX"
  shows "tx_valid (fst (try_write TS raw ts b))"
    and "index' (fst (try_write TS raw ts b)) = index_of b (end' b + header_size TS)"
  using assms llwrite_T_frame [of TS "index_of b (end' b + 4)" ts b]
  by (auto simp: try_write_def write_transaction_def transaction_base_def tx_valid_def Let_def
        index_of_def)

lemma try_write_frame:
  "\<exists>m w. snd (try_write TS raw ts b) = b\<lparr>memory' := m, writing' := w\<rparr>"
proof -
  obtain m where m: "llwrite_T TS (index_of b (end' b + 4)) ts b = b\<lparr>memory' := m\<rparr>"
    using llwrite_T_frame by blast
  have "snd (try_write TS raw ts b) = b\<lparr>memory' := memory' b, writing' := writing' b\<rparr>
        \<or> snd (try_write TS raw ts b) = b\<lparr>memory' := m, writing' := True\<rparr>"
    by (simp add: try_write_def write_transaction_def Let_def m)
  then show ?thesis by blast
qed

text \<open>
  Claim C6.  Let \<^verbatim>\<open>try_write\<close> on \<open>b0\<close> be followed by any appends and then
  \<^verbatim>\<open>invalidate()\<close>.  Then \<^verbatim>\<open>size()\<close> is what it was before the \<^verbatim>\<open>try_write\<close>,
  \<^verbatim>\<open>end_\<close> is unchanged and the destructor's commit does nothing.  When the
  transaction was valid, a following \<^verbatim>\<open>try_write\<close> is valid and starts at the same
  cursor: its \<^verbatim>\<open>index_\<close> is the one the first transaction started with and \<^verbatim>\<open>end_\<close>
  is still that of \<open>b0\<close>.
\<close>

theorem write_invalidate_restores:
  assumes "try_write TS raw ts b0 = (t, b1)"
      and "write_invalidate (appends ops (t, b1)) = (t', b3)"
  shows "buffer_size b3 = buffer_size b0 \<and> end' b3 = end' b0 \<and>
         write_commit (t', b3) = (t', b3) \<and>
         (tx_valid t \<longrightarrow>
            tx_valid (fst (try_write TS raw2 ts2 b3)) \<and>
            index' (fst (try_write TS raw2 ts2 b3)) = index' t \<and>
            end' (snd (try_write TS raw2 ts2 b3)) = end' b0)"
proof -
  obtain m1 w1 where b1: "b1 = b0\<lparr>memory' := m1, writing' := w1\<rparr>"
    using try_write_frame [of TS raw ts b0] assms(1) by auto
  obtain m2 where b2: "snd (appends ops (t, b1)) = b1\<lparr>memory' := m2\<rparr>"
    using appends_frame by blast
  have b3: "b3 = b0\<lparr>memory' := m2, writing' := False\<rparr>"
    using assms(2) b1 b2 by (cases "appends ops (t, b1)") (auto simp: write_invalidate_def)
  have t': "\<not> tx_valid t'"
    using assms(2) by (cases "appends ops (t, b1)") (auto simp: write_invalidate_def tx_valid_def)
  have frame: "buffer_size b3 = buffer_size b0 \<and> end' b3 = end' b0 \<and>
      write_commit (t', b3) = (t', b3)"
    using b3 t' by (simp add: buffer_size_def write_commit_def)
  have again: "tx_valid (fst (try_write TS raw2 ts2 b3)) \<and>
      index' (fst (try_write TS raw2 ts2 b3)) = index' t \<and>
      end' (snd (try_write TS raw2 ts2 b3)) = end' b0" if tv: "tx_valid t"
  proof -
    have v: "tx_valid (fst (try_write TS raw ts b0))" using assms(1) tv by simp
    note c = try_write_valid_cases [OF v]
    have idx: "index_of b3 (end' b3 + header_size TS) \<noteq> INVALID_INDEX"
      using c(4) b3 by (simp add: index_of_def)
    have ok: "valid' b3" "\<not> writing' b3" "header_size TS \<le> capacity' b3 - size' b3"
      using c(1,3) b3 by simp_all
    note n = try_write_valid_intro [OF ok idx, of raw2 ts2]
    have v2: "tx_valid (fst (try_write TS raw2 ts2 b3))" by (rule n(1))
    from try_write_valid_cases(5) [OF v2] obtain m3
      where "snd (try_write TS raw2 ts2 b3) = b3\<lparr>memory' := m3, writing' := True\<rparr>" by blast
    then have e: "end' (snd (try_write TS raw2 ts2 b3)) = end' b0" using b3 by simp
    have i: "index' (fst (try_write TS raw2 ts2 b3)) = index' t"
      using n(2) c(6) assms(1) b3 by (simp add: index_of_def)
    show ?thesis using v2 e i by simp
  qed
  show ?thesis using frame again by blast
qed

text \<open>
  Claim C6 on the scenario of the unit test: \<^verbatim>\<open>reserve(32)\<close>, \<^verbatim>\<open>try_write(0.0f)\<close>,
  \<^verbatim>\<open>push_back<uint32_t>(42)\<close> twice, \<^verbatim>\<open>invalidate()\<close>.
\<close>

theorem write_invalidate_restores_witness:
  "tx_valid (fst (try_write float_t raw_tx [0, 0, 0, 0] buffer32)) \<and>
   buffer_size buffer32 = 0 \<and>
   buffer_size (snd (write_invalidate (appends [Typed uint32_t [42, 0, 0, 0], Typed uint32_t [42, 0, 0, 0]]
      (try_write float_t raw_tx [0, 0, 0, 0] buffer32)))) = 0 \<and>
   end' (snd (write_invalidate (appends [Typed uint32_t [42, 0, 0, 0], Typed uint32_t [42, 0, 0, 0]]
      (try_write float_t raw_tx [0, 0, 0, 0] buffer32)))) = end' buffer32 \<and>
   tx_valid (fst (try_write float_t raw_tx [0, 0, 0x80, 0x3F]
     (snd (write_invalidate (appends [Typed uint32_t [42, 0, 0, 0], Typed uint32_t [42, 0, 0, 0]]
      (try_write float_t raw_tx [0, 0, 0, 0] buffer32))))))"
proof -
  have v: "tx_valid (fst (try_write float_t raw_tx [0, 0, 0, 0] buffer32))"
    by (simp add: buffer32_eq tx_eval buffer_eval Let_def)
  have z: "buffer_size buffer32 = 0" by (simp add: buffer32_eq buffer_size_def)
  show ?thesis
    using write_invalidate_restores
      [where TS = float_t and raw = raw_tx and ts = "[0, 0, 0, 0]" and ?b0.0 = buffer32
         and ops = "[Typed uint32_t [42, 0, 0, 0], Typed uint32_t [42, 0, 0, 0]]"
         and ?raw2.0 = raw_tx and ?ts2.0 = "[0, 0, 0x80, 0x3F]",
       OF surjective_pairing surjective_pairing]
      v z
    by simp
qed

section \<open>Cursor arithmetic and wrap-aware reads\<close>

lemma is_pow2_unat:
  assumes "is_pow2 C"
  shows "\<exists>k<32. C = 2 ^ k \<and> unat C = 2 ^ k"
proof -
  from assms obtain k where k: "k < 32" "C = 2 ^ k" by (auto simp: is_pow2_def)
  have lt: "(2::nat) ^ k < 2 ^ 32" using k(1) by (intro power_strict_increasing) auto
  have "unat (of_nat (2 ^ k) :: u32) = 2 ^ k mod 2 ^ LENGTH(32)"
    by (rule unat_of_nat)
  then have "unat (2 ^ k :: u32) = 2 ^ k" using lt by simp
  with k show ?thesis by blast
qed

lemma is_pow2_bounds:
  assumes "is_pow2 C"
  shows "0 < unat C" "unat C \<le> 2 ^ 31"
proof -
  from is_pow2_unat [OF assms] obtain k where k: "k < 32" "unat C = 2 ^ k" by blast
  show "0 < unat C" using k by simp
  have "(2::nat) ^ k \<le> 2 ^ 31" using k by (intro power_increasing) auto
  then show "unat C \<le> 2 ^ 31" using k by simp
qed

lemma index_of_mod:
  assumes "arena_ok b"
  shows "unat (index_of b x) = unat x mod unat (capacity' b)"
proof -
  from assms have p: "is_pow2 (capacity' b)" and m: "capacity_mask' b = capacity' b - 1"
    by (simp_all add: arena_ok_def)
  from is_pow2_unat [OF p] obtain k where k: "k < 32" "capacity' b = 2 ^ k" "unat (capacity' b) = 2 ^ k"
    by blast
  have "index_of b x = take_bit k x"
    by (simp only: index_of_def m k(2) take_bit_eq_mask mask_eq_exp_minus_1)
  also have "\<dots> = x mod capacity' b"
    by (simp only: k(2) take_bit_eq_mod)
  finally show ?thesis
    by (simp only: unat_mod_distrib)
qed

lemma index_of_less:
  assumes "arena_ok b"
  shows "index_of b x < capacity' b"
proof -
  have "0 < unat (capacity' b)" using assms is_pow2_bounds(1) by (simp add: arena_ok_def)
  then show ?thesis by (simp add: word_less_nat_alt index_of_mod [OF assms])
qed

lemma ring_read:
  fixes mem :: "'a list"
  assumes "i < C" "n \<le> C" "C \<le> length mem"
  shows "(if i + n \<le> C then take n (drop i mem)
          else take (C - i) (drop i mem) @ take (n - (C - i)) mem)
         = map (\<lambda>k. mem ! ((i + k) mod C)) [0..<n]"
proof (cases "i + n \<le> C")
  case True
  have "take n (drop i mem) = map (\<lambda>k. mem ! ((i + k) mod C)) [0..<n]"
  proof (rule nth_equalityI)
    show "length (take n (drop i mem)) = length (map (\<lambda>k. mem ! ((i + k) mod C)) [0..<n])"
      using True assms by simp
  next
    fix k assume "k < length (take n (drop i mem))"
    then have k: "k < n" by simp
    then have "(i + k) mod C = i + k" using True assms by simp
    then show "take n (drop i mem) ! k = map (\<lambda>k. mem ! ((i + k) mod C)) [0..<n] ! k"
      using k True assms by simp
  qed
  with True show ?thesis by simp
next
  case False
  let ?l = "take (C - i) (drop i mem) @ take (n - (C - i)) mem"
  have len1: "length (take (C - i) (drop i mem)) = C - i" using assms by simp
  have "?l = map (\<lambda>k. mem ! ((i + k) mod C)) [0..<n]"
  proof (rule nth_equalityI)
    show "length ?l = length (map (\<lambda>k. mem ! ((i + k) mod C)) [0..<n])"
      using False assms by simp
  next
    fix k assume "k < length ?l"
    then have k: "k < n" using False assms by simp
    show "?l ! k = map (\<lambda>k. mem ! ((i + k) mod C)) [0..<n] ! k"
    proof (cases "k < C - i")
      case True
      then have "(i + k) mod C = i + k" by simp
      then show ?thesis using k True assms by (simp add: nth_append)
    next
      case False
      then have ge: "C \<le> i + k" by simp
      have "i + k < C + C" using k assms by simp
      then have "(i + k) mod C = i + k - C" using ge
        by (metis le_add_diff_inverse2 add.commute mod_add_self2 mod_less nat_add_left_cancel_less)
      moreover have "k - (C - i) = i + k - C" using ge assms by simp
      ultimately show ?thesis using k False assms by (simp add: nth_append)
    qed
  qed
  with False show ?thesis by simp
qed


lemma ring_words:
  fixes idx n cap :: u32
  assumes "is_pow2 cap" "idx < cap" "n \<le> cap"
  shows "unat (idx + n) = unat idx + unat n"
    and "idx + n \<le> cap \<longleftrightarrow> unat idx + unat n \<le> unat cap"
    and "unat (cap - idx) = unat cap - unat idx"
    and "\<not> unat idx + unat n \<le> unat cap \<Longrightarrow> unat (n - (cap - idx)) = unat n - (unat cap - unat idx)"
proof -
  have C: "unat cap \<le> 2 ^ 31" using is_pow2_bounds(2) [OF assms(1)] .
  have i: "unat idx < unat cap" using assms(2) by (simp add: word_less_nat_alt)
  have m: "unat n \<le> unat cap" using assms(3) by (simp add: word_le_nat_alt)
  have "unat idx + unat n < 2 ^ LENGTH(32)" using C i m by simp
  then show s: "unat (idx + n) = unat idx + unat n" by (simp only: unat_add_lem)
  show "idx + n \<le> cap \<longleftrightarrow> unat idx + unat n \<le> unat cap"
    by (simp only: word_le_nat_alt s)
  have "idx \<le> cap" using assms(2) by simp
  then show d: "unat (cap - idx) = unat cap - unat idx" by (rule unat_sub)
  assume "\<not> unat idx + unat n \<le> unat cap"
  then have "cap - idx \<le> n" using i by (simp add: word_le_nat_alt d)
  then show "unat (n - (cap - idx)) = unat n - (unat cap - unat idx)"
    by (simp only: unat_sub d)
qed

lemma llread_ring:
  assumes "arena_ok b" "idx < capacity' b" "n \<le> capacity' b"
  shows "llread idx n b = ring_bytes b (unat idx) (unat n)"
proof -
  from assms(1) have p: "is_pow2 (capacity' b)" and l: "unat (capacity' b) \<le> length (arena b)"
    by (simp_all add: arena_ok_def)
  note w = ring_words [OF p assms(2,3)]
  have i: "unat idx < unat (capacity' b)" using assms(2) by (simp add: word_less_nat_alt)
  have m: "unat n \<le> unat (capacity' b)" using assms(3) by (simp add: word_le_nat_alt)
  show ?thesis
  proof (cases "unat idx + unat n \<le> unat (capacity' b)")
    case True
    then show ?thesis
      using ring_read [OF i m l] by (simp add: llread_def w(2) memcpy_from_def ring_bytes_def)
  next
    case False
    then show ?thesis
      using ring_read [OF i m l] w(4) [OF False]
      by (simp add: llread_def w(2,3) memcpy_from_def ring_bytes_def Let_def)
  qed
qed

lemma unat_of_nat_u32: "n < 2 ^ 32 \<Longrightarrow> unat (of_nat n :: u32) = n"
  using unat_of_nat [where 'a = 32, of n] by simp

lemma llread_T_ring:
  assumes "arena_ok b" "idx < capacity' b" "sizeof T \<le> unat (capacity' b)"
  shows "llread_T T idx b = ring_bytes b (unat idx) (sizeof T)"
proof -
  from assms(1) have p: "is_pow2 (capacity' b)" and l: "unat (capacity' b) \<le> length (arena b)"
    by (simp_all add: arena_ok_def)
  have C: "unat (capacity' b) \<le> 2 ^ 31" using is_pow2_bounds(2) [OF p] .
  have sz: "unat (of_nat (sizeof T) :: u32) = sizeof T"
    using C assms(3) by (intro unat_of_nat_u32) simp
  have i: "unat idx < unat (capacity' b)" using assms(2) by (simp add: word_less_nat_alt)
  show ?thesis
  proof (cases "is_arithmetic T")
    case False
    have "of_nat (sizeof T) \<le> capacity' b" using assms(3) by (simp add: word_le_nat_alt sz)
    from llread_ring [OF assms(1,2) this] False show ?thesis
      by (simp add: llread_T_def sz)
  next
    case True
    have d: "unat (capacity' b - idx) = unat (capacity' b) - unat idx"
      using assms(2) by (intro unat_sub) simp
    show ?thesis
      using ring_read [OF i assms(3) l] True
      by (simp add: llread_T_def memcpy_from_def ring_bytes_def Let_def d split: if_splits)
  qed
qed

lemma index_of_advance:
  assumes "arena_ok b" "idx < capacity' b" "n \<le> capacity' b"
  shows "unat (index_of b (idx + n)) = (unat idx + unat n) mod unat (capacity' b)"
proof -
  from assms(1) have p: "is_pow2 (capacity' b)" by (simp add: arena_ok_def)
  show ?thesis by (simp only: index_of_mod [OF assms(1)] ring_words(1) [OF p assms(2,3)])
qed


lemma ring_bytes_length: "length (ring_bytes b i n) = n"
  by (simp add: ring_bytes_def)

section \<open>Popping from a read transaction\<close>

text \<open>
  Claim C9, as amended.  \<^verbatim>\<open>pop_front<T>()\<close> on a read transaction, for a type whose
  size fits 32 bits.  When the transaction is invalid or has fewer than \<^verbatim>\<open>sizeof(T)\<close>
  bytes available, the flag is \<open>false\<close>, the transaction is unchanged and the value is
  unspecified: it is whatever the storage of the uninitialised local held (\<open>uninit\<close>),
  not a default value of \<open>T\<close>.  Otherwise the flag is \<open>true\<close>, \<^verbatim>\<open>available_\<close>
  drops by \<^verbatim>\<open>sizeof(T)\<close> and the header is untouched; and on a transaction in step
  with its buffer the value is the \<^verbatim>\<open>sizeof(T)\<close> bytes found from \<^verbatim>\<open>index_\<close> on, wrapping
  at the capacity, and \<^verbatim>\<open>index_\<close> advances by \<^verbatim>\<open>sizeof(T)\<close> modulo the capacity.
\<close>

theorem pop_front_typed:
  assumes "sizeof T < 2 ^ 32" and "pop_front_T T uninit (t, b) = ((v, ok), t')"
  shows "(\<not> tx_valid t \<or> unat (available' t) < sizeof T \<longrightarrow> v = uninit \<and> \<not> ok \<and> t' = t) \<and>
         (tx_valid t \<and> sizeof T \<le> unat (available' t) \<longrightarrow>
            ok \<and> unat (available' t') = unat (available' t) - sizeof T \<and>
            header_size' t' = header_size' t \<and> header_timestamp' t' = header_timestamp' t) \<and>
         (tx_valid t \<and> sizeof T \<le> unat (available' t) \<and> read_ok t b \<longrightarrow>
            v = ring_bytes b (unat (index' t)) (sizeof T) \<and> length v = sizeof T \<and>
            unat (index' t') = (unat (index' t) + sizeof T) mod unat (capacity' b))"
proof -
  have sz: "unat (of_nat (sizeof T) :: u32) = sizeof T"
    using assms(1) by (rule unat_of_nat_u32)
  have cr: "can_read (of_nat (sizeof T)) t \<longleftrightarrow> tx_valid t \<and> sizeof T \<le> unat (available' t)"
    by (simp add: can_read_def word_le_nat_alt sz)
  show ?thesis
  proof (cases "can_read (of_nat (sizeof T)) t")
    case False
    with assms(2) have "v = uninit \<and> \<not> ok \<and> t' = t" by (auto simp: pop_front_T_def Let_def)
    with False cr show ?thesis by auto
  next
    case True
    with cr have tv: "tx_valid t" and av: "sizeof T \<le> unat (available' t)" by auto
    from True assms(2) have ok: "ok" and v: "v = llread_T T (index' t) b"
      and t': "t' = t\<lparr>index' := index_of b (index' t + of_nat (sizeof T)),
                      available' := available' t - of_nat (sizeof T)\<rparr>"
      by (auto simp: pop_front_T_def Let_def)
    have "of_nat (sizeof T) \<le> available' t" using av by (simp add: word_le_nat_alt sz)
    then have a: "unat (available' t') = unat (available' t) - sizeof T"
      by (simp add: t' unat_sub sz)
    have w: "v = ring_bytes b (unat (index' t)) (sizeof T) \<and> length v = sizeof T \<and>
             unat (index' t') = (unat (index' t) + sizeof T) mod unat (capacity' b)"
      if r: "read_ok t b"
    proof -
      from r have ao: "arena_ok b" and i: "index' t < capacity' b"
        and ac: "available' t \<le> capacity' b" by (simp_all add: read_ok_def)
      have szc: "sizeof T \<le> unat (capacity' b)" using av ac by (simp add: word_le_nat_alt)
      then have szw: "(of_nat (sizeof T) :: u32) \<le> capacity' b"
        by (simp add: word_le_nat_alt sz)
      have "v = ring_bytes b (unat (index' t)) (sizeof T)"
        by (simp only: v llread_T_ring [OF ao i szc])
      moreover have "unat (index' t') = (unat (index' t) + sizeof T) mod unat (capacity' b)"
        using index_of_advance [OF ao i szw] by (simp add: t' sz)
      ultimately show ?thesis by (simp add: ring_bytes_length)
    qed
    show ?thesis using tv av ok a w by (auto simp: t')
  qed
qed

text \<open>
  Claim C5, as amended.  \<^verbatim>\<open>pop_front(n, cb)\<close> on a read transaction.  When the
  transaction is invalid or \<^verbatim>\<open>available_ < n\<close> it returns false, invokes nothing and
  changes nothing.  When it is valid with \<^verbatim>\<open>available_ \<ge> n\<close> it returns true and
  \<^verbatim>\<open>available_\<close> drops by \<open>n\<close>; an empty \<open>cb\<close> is not invoked.  On a transaction in
  step with its buffer \<^verbatim>\<open>index_\<close> advances by \<open>n\<close> modulo the capacity \<open>C\<close>, and a
  callable \<open>cb\<close> is invoked once with \<open>(index, n)\<close> when \<open>index + n \<le> C\<close>, otherwise
  twice, with \<open>C - index\<close> bytes at \<open>index\<close> and \<open>n - (C - index)\<close> bytes at offset 0;
  the lengths add up to \<open>n\<close> and the bytes shown are the \<open>n\<close> bytes from \<open>index\<close> on,
  wrapping at \<open>C\<close>.
\<close>

theorem pop_front_sized:
  assumes "pop_front n callable (t, b) = (ok, calls, t')"
  shows "(\<not> tx_valid t \<or> available' t < n \<longrightarrow> \<not> ok \<and> calls = [] \<and> t' = t) \<and>
         (tx_valid t \<and> n \<le> available' t \<longrightarrow>
            ok \<and> unat (available' t') = unat (available' t) - unat n \<and>
            header_size' t' = header_size' t \<and> header_timestamp' t' = header_timestamp' t \<and>
            (\<not> callable \<longrightarrow> calls = [])) \<and>
         (tx_valid t \<and> n \<le> available' t \<and> read_ok t b \<longrightarrow>
            unat (index' t') = (unat (index' t) + unat n) mod unat (capacity' b) \<and>
            (callable \<longrightarrow>
               (unat (index' t) + unat n \<le> unat (capacity' b) \<longrightarrow> calls = [(index' t, n)]) \<and>
               (\<not> unat (index' t) + unat n \<le> unat (capacity' b) \<longrightarrow>
                  calls = [(index' t, capacity' b - index' t),
                           (0, n - (capacity' b - index' t))] \<and>
                  unat (capacity' b - index' t) = unat (capacity' b) - unat (index' t) \<and>
                  unat (n - (capacity' b - index' t))
                    = unat n - (unat (capacity' b) - unat (index' t))) \<and>
               sum_list (map (\<lambda>c. unat (snd c)) calls) = unat n \<and>
               concat (map (delivered b) calls) = ring_bytes b (unat (index' t)) (unat n)))"
proof (cases "can_read n t")
  case False
  with assms have "\<not> ok \<and> calls = [] \<and> t' = t" by (auto simp: pop_front_def Let_def)
  with False show ?thesis by (auto simp: can_read_def)
next
  case True
  then have tv: "tx_valid t" and av: "n \<le> available' t" by (simp_all add: can_read_def)
  have mn: "min (available' t) n = n" using av by (simp add: min_def)
  from True assms have ok: "ok"
    and t': "t' = t\<lparr>index' := index_of b (index' t + n), available' := available' t - n\<rparr>"
    and calls: "calls = (if callable then
                   (if index' t + n \<le> capacity' b then [(index' t, n)]
                    else [(index' t, capacity' b - index' t), (0, n - (capacity' b - index' t))])
                 else [])"
    by (auto simp: pop_front_def Let_def mn)
  have a: "unat (available' t') = unat (available' t) - unat n"
    using av by (simp add: t' unat_sub)
  have w: "unat (index' t') = (unat (index' t) + unat n) mod unat (capacity' b) \<and>
            (callable \<longrightarrow>
               (unat (index' t) + unat n \<le> unat (capacity' b) \<longrightarrow> calls = [(index' t, n)]) \<and>
               (\<not> unat (index' t) + unat n \<le> unat (capacity' b) \<longrightarrow>
                  calls = [(index' t, capacity' b - index' t),
                           (0, n - (capacity' b - index' t))] \<and>
                  unat (capacity' b - index' t) = unat (capacity' b) - unat (index' t) \<and>
                  unat (n - (capacity' b - index' t))
                    = unat n - (unat (capacity' b) - unat (index' t))) \<and>
               sum_list (map (\<lambda>c. unat (snd c)) calls) = unat n \<and>
               concat (map (delivered b) calls) = ring_bytes b (unat (index' t)) (unat n))"
    if r: "read_ok t b"
  proof -
    from r have ao: "arena_ok b" and i: "index' t < capacity' b"
      and ac: "available' t \<le> capacity' b" by (simp_all add: read_ok_def)
    from ao have p: "is_pow2 (capacity' b)" and l: "unat (capacity' b) \<le> length (arena b)"
      by (simp_all add: arena_ok_def)
    have nc: "n \<le> capacity' b" using av ac by simp
    note rw = ring_words [OF p i nc]
    have iu: "unat (index' t) < unat (capacity' b)" using i by (simp add: word_less_nat_alt)
    have nu: "unat n \<le> unat (capacity' b)" using nc by (simp add: word_le_nat_alt)
    have idx: "unat (index' t') = (unat (index' t) + unat n) mod unat (capacity' b)"
      using index_of_advance [OF ao i nc] by (simp add: t')
    show ?thesis
    proof (cases "unat (index' t) + unat n \<le> unat (capacity' b)")
      case True
      then have c: "callable \<Longrightarrow> calls = [(index' t, n)]" by (simp add: calls rw(2))
      have "delivered b (index' t, n) = ring_bytes b (unat (index' t)) (unat n)"
        using ring_read [OF iu nu l] True by (simp add: delivered_def memcpy_from_def ring_bytes_def)
      with True c idx show ?thesis by auto
    next
      case False
      then have c: "callable \<Longrightarrow>
          calls = [(index' t, capacity' b - index' t), (0, n - (capacity' b - index' t))]"
        by (simp add: calls rw(2))
      have "delivered b (index' t, capacity' b - index' t)
              @ delivered b (0, n - (capacity' b - index' t))
            = ring_bytes b (unat (index' t)) (unat n)"
        using ring_read [OF iu nu l] False
        by (simp add: delivered_def memcpy_from_def ring_bytes_def rw(3) rw(4) [OF False])
      moreover have "unat (capacity' b - index' t) + unat (n - (capacity' b - index' t)) = unat n"
        using False iu by (simp add: rw(3) rw(4) [OF False])
      ultimately show ?thesis using False c idx rw(3) rw(4) [OF False] by auto
    qed
  qed
  show ?thesis using tv av ok a w calls by (auto simp: t')
qed

section \<open>The wrap-around scenario\<close>

lemma try_read_wrap:
  "try_read float_t raw_tx buffer32_wrap =
     (\<lparr>header_size' = 24, header_timestamp' = [0, 0, 0, 0x40], index' = 28, available' = 16\<rparr>,
      \<lparr>valid' = True, own_memory' = True, reading' = True, writing' = False,
      capacity' = 32, capacity_mask' = 31, start' = 20, end' = 12, size' = 24,
      memory' = Some [187, 187, 187, 187, 187, 187, 187, 187, 187, 187, 187, 187, 170,
        170, 170, 170, 170, 170, 170, 170, 24, 0, 0, 0, 0, 0, 0, 64, 187,
        187, 187, 187]\<rparr>)"
  by code_simp

lemma read_ok_wrap:
  "read_ok (fst (try_read float_t raw_tx buffer32_wrap)) (snd (try_read float_t raw_tx buffer32_wrap))"
  by (simp add: try_read_wrap read_ok_def arena_ok_def is_pow2_iff arena_def)

text \<open>
  Claim C5, the amended statement on the record that spans the end of the arena: the
  16 payload bytes arrive as 4 bytes at offset 28 and 12 bytes at offset 0, and a
  request for 17 bytes is refused.
\<close>

theorem pop_front_sized_witness:
  "tx_valid (fst (try_read float_t raw_tx buffer32_wrap)) \<and>
   16 \<le> available' (fst (try_read float_t raw_tx buffer32_wrap)) \<and>
   read_ok (fst (try_read float_t raw_tx buffer32_wrap)) (snd (try_read float_t raw_tx buffer32_wrap)) \<and>
   fst (pop_front 16 True (try_read float_t raw_tx buffer32_wrap)) \<and>
   fst (snd (pop_front 16 True (try_read float_t raw_tx buffer32_wrap))) = [(28, 4), (0, 12)] \<and>
   unat (index' (snd (snd (pop_front 16 True (try_read float_t raw_tx buffer32_wrap))))) = 12 \<and>
   unat (available' (snd (snd (pop_front 16 True (try_read float_t raw_tx buffer32_wrap))))) = 0 \<and>
   concat (map (delivered (snd (try_read float_t raw_tx buffer32_wrap)))
     (fst (snd (pop_front 16 True (try_read float_t raw_tx buffer32_wrap)))))
     = ring_bytes (snd (try_read float_t raw_tx buffer32_wrap)) 28 16 \<and>
   ring_bytes (snd (try_read float_t raw_tx buffer32_wrap)) 28 16 = replicate 16 0xBB \<and>
   pop_front 17 True (try_read float_t raw_tx buffer32_wrap)
     = (False, [], fst (try_read float_t raw_tx buffer32_wrap))"
proof -
  let ?rd = "try_read float_t raw_tx buffer32_wrap"
  have v: "tx_valid (fst ?rd)" "16 \<le> available' (fst ?rd)" "available' (fst ?rd) < 17"
    "index' (fst ?rd) = 28" "available' (fst ?rd) = 16" "capacity' (snd ?rd) = 32"
    by (simp_all add: try_read_wrap tx_valid_def INVALID_INDEX_def)
  have rb: "ring_bytes (snd ?rd) 28 16 = replicate 16 0xBB"
    by code_simp
  have dl: "delivered (snd ?rd) (28, 4) @ delivered (snd ?rd) (0, 12) = replicate 16 0xBB"
    by code_simp
  have e: "pop_front n c (fst ?rd, snd ?rd)
      = (fst (pop_front n c ?rd), fst (snd (pop_front n c ?rd)), snd (snd (pop_front n c ?rd)))"
    for n c by simp
  show ?thesis
    using pop_front_sized [OF e [of 16 True]] pop_front_sized [OF e [of 17 True]] v read_ok_wrap rb dl
    by (simp add: prod_eq_iff)
qed

text \<open>
  Claim C5 as stated fails for an empty \<^verbatim>\<open>std::function\<close>: the transaction is valid
  with 16 bytes available, \<^verbatim>\<open>pop_front(16, cb)\<close> returns true, and \<open>cb\<close> is never
  invoked, so no byte is delivered.
\<close>

theorem pop_front_empty_callback_counterexample:
  "tx_valid (fst (try_read float_t raw_tx buffer32_wrap)) \<and>
   16 \<le> available' (fst (try_read float_t raw_tx buffer32_wrap)) \<and>
   fst (pop_front 16 False (try_read float_t raw_tx buffer32_wrap)) \<and>
   fst (snd (pop_front 16 False (try_read float_t raw_tx buffer32_wrap))) = []"
  by (simp add: try_read_wrap tx_valid_def INVALID_INDEX_def pop_front_def can_read_def Let_def)

text \<open>
  Claim C9 as stated fails on the payload-free record of \<open>buffer32_one\<close>: the
  transaction is valid with no byte available, and \<^verbatim>\<open>pop_front<uint64_t>()\<close> on a local
  whose storage holds the bytes 1 to 8 returns those bytes with \<open>false\<close>, which is not
  the value-initialised \<^verbatim>\<open>uint64_t\<close>.
\<close>

theorem pop_front_typed_default_counterexample:
  "tx_valid (fst (try_read float_t raw_tx buffer32_one)) \<and>
   available' (fst (try_read float_t raw_tx buffer32_one)) = 0 \<and>
   fst (pop_front_T uint64_t [1, 2, 3, 4, 5, 6, 7, 8] (try_read float_t raw_tx buffer32_one))
     = ([1, 2, 3, 4, 5, 6, 7, 8], False) \<and>
   fst (fst (pop_front_T uint64_t [1, 2, 3, 4, 5, 6, 7, 8] (try_read float_t raw_tx buffer32_one)))
     \<noteq> value_initialised uint64_t"
proof -
  have z: "value_initialised uint64_t = [0, 0, 0, 0, 0, 0, 0, 0]"
    by (simp add: value_initialised_def uint64_t_def eval_nat_numeral)
  have s8: "sizeof uint64_t = 8" by (simp add: uint64_t_def)
  show ?thesis
    by (simp add: try_read_one tx_valid_def INVALID_INDEX_def pop_front_T_def can_read_def Let_def
          z s8)
qed

text \<open>
  Claim C9, the amended statement on the record that spans the end of the arena with
  \<^verbatim>\<open>pop_front<uint64_t>()\<close>, whose 8 bytes wrap, and on the payload-free record of
  \<open>buffer32_one\<close>, where the pop fails and hands back the storage contents 1 to 8.
\<close>

theorem pop_front_typed_witness:
  "sizeof uint64_t < (2::nat) ^ 32 \<and>
   tx_valid (fst (try_read float_t raw_tx buffer32_wrap)) \<and>
   sizeof uint64_t \<le> unat (available' (fst (try_read float_t raw_tx buffer32_wrap))) \<and>
   read_ok (fst (try_read float_t raw_tx buffer32_wrap)) (snd (try_read float_t raw_tx buffer32_wrap)) \<and>
   fst (pop_front_T uint64_t [1, 2, 3, 4, 5, 6, 7, 8] (try_read float_t raw_tx buffer32_wrap))
     = (replicate 8 0xBB, True) \<and>
   unat (index' (snd (pop_front_T uint64_t [1, 2, 3, 4, 5, 6, 7, 8]
     (try_read float_t raw_tx buffer32_wrap)))) = 4 \<and>
   unat (available' (snd (pop_front_T uint64_t [1, 2, 3, 4, 5, 6, 7, 8]
     (try_read float_t raw_tx buffer32_wrap)))) = 8 \<and>
   pop_front_T uint64_t [1, 2, 3, 4, 5, 6, 7, 8] (try_read float_t raw_tx buffer32_one)
     = (([1, 2, 3, 4, 5, 6, 7, 8], False), fst (try_read float_t raw_tx buffer32_one))"
proof -
  let ?rd = "try_read float_t raw_tx buffer32_wrap"
  let ?r1 = "try_read float_t raw_tx buffer32_one"
  let ?d = "[1, 2, 3, 4, 5, 6, 7, 8] :: u8 list"
  have s: "sizeof uint64_t < (2::nat) ^ 32" "sizeof uint64_t = 8" by (simp_all add: uint64_t_def)
  have v: "tx_valid (fst ?rd)" "index' (fst ?rd) = 28" "available' (fst ?rd) = 16"
    "capacity' (snd ?rd) = 32"
    by (simp_all add: try_read_wrap tx_valid_def INVALID_INDEX_def)
  have v1: "available' (fst ?r1) = 0" by (simp add: try_read_one)
  have rb: "ring_bytes (snd ?rd) 28 8 = replicate 8 0xBB"
    by code_simp
  have e: "pop_front_T uint64_t ?d (fst ?rd, snd ?rd)
      = ((fst (fst (pop_front_T uint64_t ?d ?rd)), snd (fst (pop_front_T uint64_t ?d ?rd))),
         snd (pop_front_T uint64_t ?d ?rd))"
    by simp
  have e1: "pop_front_T uint64_t ?d (fst ?r1, snd ?r1)
      = ((fst (fst (pop_front_T uint64_t ?d ?r1)), snd (fst (pop_front_T uint64_t ?d ?r1))),
         snd (pop_front_T uint64_t ?d ?r1))"
    by simp
  show ?thesis
    using pop_front_typed [OF s(1) e] pop_front_typed [OF s(1) e1] s v v1 read_ok_wrap rb
    by (simp add: prod_eq_iff)
qed


section \<open>Rounding up to a power of two\<close>

text \<open>
  One step of the loop in \<^verbatim>\<open>round_up\<close> doubles the window of bits of \<open>x\<close> that a bit
  of the accumulator collects.
\<close>

lemma smear_step:
  fixes r x :: u32
  assumes "\<And>i. bit r i \<longleftrightarrow> (\<exists>j. i \<le> j \<and> j < i + m \<and> bit x j)"
  shows "bit (r OR drop_bit m r) i \<longleftrightarrow> (\<exists>j. i \<le> j \<and> j < i + 2 * m \<and> bit x j)"
proof
  assume "bit (r OR drop_bit m r) i"
  then have "bit r i \<or> bit r (m + i)" by (simp add: bit_or_iff bit_drop_bit_eq)
  then show "\<exists>j. i \<le> j \<and> j < i + 2 * m \<and> bit x j"
  proof
    assume "bit r i"
    then obtain j where "i \<le> j" "j < i + m" "bit x j" using assms by blast
    then show ?thesis by (intro exI [of _ j]) simp
  next
    assume "bit r (m + i)"
    then obtain j where "m + i \<le> j" "j < m + i + m" "bit x j" using assms by blast
    then show ?thesis by (intro exI [of _ j]) simp
  qed
next
  assume "\<exists>j. i \<le> j \<and> j < i + 2 * m \<and> bit x j"
  then obtain j where j: "i \<le> j" "j < i + 2 * m" "bit x j" by blast
  show "bit (r OR drop_bit m r) i"
  proof (cases "j < i + m")
    case True
    with j have "bit r i" using assms by blast
    then show ?thesis by (simp add: bit_or_iff)
  next
    case False
    with j have "m + i \<le> j \<and> j < m + i + m \<and> bit x j" by simp
    then have "bit r (m + i)" using assms by blast
    then show ?thesis by (simp add: bit_or_iff bit_drop_bit_eq)
  qed
qed

lemma smear_bits:
  fixes x :: u32
  shows "bit (fold (\<lambda>i r. r OR drop_bit i r) [1, 2, 4, 8, 16] x) i \<longleftrightarrow> (\<exists>j\<ge>i. bit x j)"
proof -
  have s0: "bit x i \<longleftrightarrow> (\<exists>j. i \<le> j \<and> j < i + 1 \<and> bit x j)" for i
    by (auto simp: less_Suc_eq_le dest: antisym)
  note s1 = smear_step [of x 1 x, OF s0]
  note s2 = smear_step [of "x OR drop_bit 1 x" 2 x, simplified, OF s1 [simplified]]
  note s3 = smear_step [of _ 4 x, simplified, OF s2]
  note s4 = smear_step [of _ 8 x, simplified, OF s3]
  note s5 = smear_step [of _ 16 x, simplified, OF s4]
  have "bit (fold (\<lambda>i r. r OR drop_bit i r) [1, 2, 4, 8, 16] x) i
          \<longleftrightarrow> (\<exists>j. i \<le> j \<and> j < i + 32 \<and> bit x j)"
    using s5 [of i] by simp
  also have "\<dots> \<longleftrightarrow> (\<exists>j\<ge>i. bit x j)"
  proof -
    have "j < 32" if "bit x j" for j using bit_imp_le_length [OF that] by simp
    then show ?thesis by (meson trans_less_add2)
  qed
  finally show ?thesis .
qed


lemma unat_pow2_u32:
  assumes "k < 32"
  shows "unat (2 ^ k :: u32) = 2 ^ k"
proof -
  have lt: "(2::nat) ^ k < 2 ^ 32" using assms by (intro power_strict_increasing) auto
  have "unat (of_nat (2 ^ k) :: u32) = 2 ^ k mod 2 ^ LENGTH(32)"
    by (rule unat_of_nat)
  then show ?thesis using lt by simp
qed

lemma smear_succ_pow2:
  fixes x :: u32
  assumes "x < 2 ^ 31"
  shows "\<exists>k<32. fold (\<lambda>i r. r OR drop_bit i r) [1, 2, 4, 8, 16] x + 1 = 2 ^ k \<and> x < 2 ^ k"
proof -
  let ?s = "fold (\<lambda>i r. r OR drop_bit i r) [1, 2, 4, 8, 16] x"
  have tb: "take_bit 31 x = x" using less_mask_eq [OF assms] by (simp only: take_bit_eq_mask)
  have b31: "j < 31" if "bit x j" for j
  proof -
    from that have "bit (take_bit 31 x) j" by (simp only: tb)
    then show ?thesis by (simp add: bit_take_bit_iff)
  qed
  show ?thesis
  proof (cases "x = 0")
    case True
    have "\<not> bit ?s i" for i unfolding smear_bits by (simp add: True)
    then have "?s = 0" by (intro bit_word_eqI) simp
    then have "?s + 1 = 2 ^ 0 \<and> x < 2 ^ 0" using True by simp
    then show ?thesis by (intro exI [of _ 0]) simp
  next
    case False
    let ?S = "{j. bit x j}"
    have fin: "finite ?S"
    proof (rule finite_subset)
      show "?S \<subseteq> {..<31}" using b31 by auto
    qed simp
    have ne: "?S \<noteq> {}"
    proof
      assume "?S = {}"
      then have "x = 0" by (intro bit_word_eqI) auto
      with False show False by simp
    qed
    define h where "h = Max ?S"
    have hS: "bit x h" using Max_in [OF fin ne] by (simp add: h_def)
    have hmax: "j \<le> h" if "bit x j" for j using Max_ge [OF fin, of j] that by (simp add: h_def)
    have h31: "h < 31" using b31 [OF hS] .
    have sb: "bit ?s i \<longleftrightarrow> i \<le> h" for i
      unfolding smear_bits using hS hmax by (auto intro: order_trans)
    have "bit ?s i \<longleftrightarrow> bit (mask (Suc h) :: u32) i" for i
      unfolding sb using h31 by (auto simp: bit_mask_iff)
    then have "?s = mask (Suc h)" by (intro bit_word_eqI) blast
    then have s1: "?s + 1 = 2 ^ Suc h" by (simp only: mask_eq_exp_minus_1) simp
    have "take_bit (Suc h) x = x"
      by (rule bit_word_eqI) (auto simp: bit_take_bit_iff less_Suc_eq_le dest: hmax)
    moreover have "x AND mask (Suc h) < 2 ^ Suc h" using h31 by (intro and_mask_less') simp
    ultimately have "x < 2 ^ Suc h" by (simp only: take_bit_eq_mask)
    with s1 h31 show ?thesis by (intro exI [of _ "Suc h"]) simp
  qed
qed

lemma round_up_pow2:
  assumes "4 + sizeof TS \<le> 2 ^ 31" "v \<le> 2 ^ 31"
  shows "is_pow2 (round_up TS v) \<and> max v (min_capacity TS) \<le> round_up TS v"
proof -
  let ?m = "max v (min_capacity TS)"
  have mc: "unat (min_capacity TS) = 4 + sizeof TS"
    using assms(1) unat_of_nat [where 'a = 32, of "4 + sizeof TS"] by (simp add: min_capacity_def)
  have vu: "unat v \<le> 2 ^ 31" using assms(2) by (simp add: word_le_nat_alt)
  have mu: "unat ?m \<le> 2 ^ 31" "0 < unat ?m"
    using vu mc assms(1) by (auto simp: max_def word_le_nat_alt)
  have m0: "?m \<noteq> 0" using mu(2) by (auto simp: unat_gt_0)
  have x: "unat (?m - 1) = unat ?m - 1" using m0 by (rule unat_minus_one)
  have "?m - 1 < 2 ^ 31" using x mu by (simp add: word_less_nat_alt)
  from smear_succ_pow2 [OF this] obtain k where k: "k < 32"
    "fold (\<lambda>i r. r OR drop_bit i r) [1, 2, 4, 8, 16] (?m - 1) + 1 = 2 ^ k" "?m - 1 < 2 ^ k"
    by blast
  have r: "round_up TS v = 2 ^ k" using k(2) by (simp add: round_up_def Let_def)
  have u: "unat (2 ^ k :: u32) = 2 ^ k" using k(1) by (rule unat_pow2_u32)
  have "unat ?m - 1 < 2 ^ k" using k(3) by (simp add: word_less_nat_alt x u)
  then have "unat ?m \<le> 2 ^ k" by simp
  then have "?m \<le> 2 ^ k" by (simp add: word_le_nat_alt u)
  moreover have "is_pow2 (2 ^ k)" using k(1) by (auto simp: is_pow2_def)
  ultimately show ?thesis by (simp add: r)
qed

text \<open>
  Claim C4, as amended.  For a timestamp type whose header size is at most \<open>2^31\<close> and
  every \<open>n \<le> 2^31\<close>, \<^verbatim>\<open>reserve(n)\<close> on a freshly constructed buffer returns true and
  leaves \<^verbatim>\<open>capacity()\<close> a power of two that is at least \<open>max(n, MIN_CAPACITY)\<close>.
\<close>

theorem reserve_fresh_power_of_two:
  assumes "4 + sizeof TS \<le> 2 ^ 31" "n \<le> 2 ^ 31"
  shows "fst (reserve TS n (transactional_ring_buffer raw)) \<and>
         is_pow2 (capacity (snd (reserve TS n (transactional_ring_buffer raw)))) \<and>
         max n (min_capacity TS) \<le> capacity (snd (reserve TS n (transactional_ring_buffer raw)))"
proof -
  let ?w = "if n < min_capacity TS then min_capacity TS else n"
  have w: "?w = max n (min_capacity TS)" by (auto simp: max_def)
  have mc: "unat (min_capacity TS) = 4 + sizeof TS"
    using assms(1) unat_of_nat [where 'a = 32, of "4 + sizeof TS"] by (simp add: min_capacity_def)
  have "?w \<le> 2 ^ 31" using assms mc by (auto simp: word_le_nat_alt)
  from round_up_pow2 [OF assms(1) this]
  have "is_pow2 (round_up TS ?w) \<and> max n (min_capacity TS) \<le> round_up TS ?w"
    by (simp add: w)
  then show ?thesis
    by (simp add: reserve_def transactional_ring_buffer_def Let_def set_buffer_def new_array_def
          capacity_def)
qed

text \<open>Claim C4, the amended statement at \<^verbatim>\<open>reserve(33)\<close> with a \<^verbatim>\<open>float\<close> timestamp: 64.\<close>

theorem reserve_fresh_power_of_two_witness:
  "4 + sizeof float_t \<le> (2::nat) ^ 31 \<and> (33::u32) \<le> 2 ^ 31 \<and>
   fst (reserve float_t 33 (transactional_ring_buffer raw_buffer)) \<and>
   is_pow2 (capacity (snd (reserve float_t 33 (transactional_ring_buffer raw_buffer)))) \<and>
   max 33 (min_capacity float_t) \<le> capacity (snd (reserve float_t 33 (transactional_ring_buffer raw_buffer))) \<and>
   capacity (snd (reserve float_t 33 (transactional_ring_buffer raw_buffer))) = 64"
proof -
  have a: "4 + sizeof float_t \<le> (2::nat) ^ 31" by (simp add: float_t_def)
  have b: "(33::u32) \<le> 2 ^ 31" by simp
  have c: "capacity (snd (reserve float_t 33 (transactional_ring_buffer raw_buffer))) = 64"
    by (simp add: buffer_eval capacity_def)
  show ?thesis
    using reserve_fresh_power_of_two [OF a b, of raw_buffer] a b c by simp
qed

text \<open>
  Claim C4 as stated fails above \<open>2^31\<close>, where no 32-bit power of two is large
  enough: \<^verbatim>\<open>reserve(0x80000001)\<close> returns true and \<^verbatim>\<open>capacity()\<close> is 0, which is neither
  a power of two nor at least \<open>n\<close>.
\<close>

theorem reserve_overflow_counterexample:
  "fst (reserve float_t 0x80000001 (transactional_ring_buffer raw_buffer)) \<and>
   capacity (snd (reserve float_t 0x80000001 (transactional_ring_buffer raw_buffer))) = 0 \<and>
   \<not> is_pow2 (capacity (snd (reserve float_t 0x80000001 (transactional_ring_buffer raw_buffer)))) \<and>
   \<not> max 0x80000001 (min_capacity float_t)
       \<le> capacity (snd (reserve float_t 0x80000001 (transactional_ring_buffer raw_buffer)))"
proof -
  have c: "capacity (snd (reserve float_t 0x80000001 (transactional_ring_buffer raw_buffer))) = 0"
    by (simp add: buffer_eval capacity_def)
  have f: "fst (reserve float_t 0x80000001 (transactional_ring_buffer raw_buffer))"
    by (simp add: buffer_eval)
  have m: "max 0x80000001 (min_capacity float_t) = 0x80000001"
    by (simp add: min_capacity_def float_t_def)
  show ?thesis by (simp add: c f m is_pow2_iff)
qed


section \<open>Stores and views on the ring\<close>

lemma memcpy_to_length: "length (memcpy_to mem off src) = length mem"
  by (simp add: memcpy_to_def)

lemma memcpy_to_nth:
  "j < length mem \<Longrightarrow>
   memcpy_to mem off src ! j =
     (if off \<le> j \<and> j < off + length src then src ! (j - off) else mem ! j)"
  by (simp add: memcpy_to_def)

lemma ring_store_length: "length (ring_store C i src mem) = length mem"
  by (simp add: ring_store_def memcpy_to_length)

lemma mod_wrap: "C \<le> x \<Longrightarrow> x < C + C \<Longrightarrow> x mod C = x - (C::nat)"
  by (metis le_add_diff_inverse2 add.commute mod_add_self2 mod_less nat_add_left_cancel_less)

lemma ring_store_hit:
  assumes "i < C" "length src \<le> C" "C \<le> length mem" "k < length src"
  shows "ring_store C i src mem ! ((i + k) mod C) = src ! k"
proof (cases "i + length src \<le> C")
  case True
  then have "(i + k) mod C = i + k" using assms by simp
  then show ?thesis using True assms by (simp add: ring_store_def memcpy_to_nth)
next
  case False
  show ?thesis
  proof (cases "k < C - i")
    case True
    then have lt: "i + k < C" by simp
    then have m: "(i + k) mod C = i + k" by simp
    have "\<not> i + k < length src - (C - i)" using assms by simp
    then show ?thesis
      using False True assms m lt by (simp add: ring_store_def memcpy_to_nth memcpy_to_length)
  next
    case k: False
    then have m: "(i + k) mod C = i + k - C" using assms by (intro mod_wrap) simp_all
    have "i + k - C < length src - (C - i)" using k assms by simp
    moreover have "C - i + (i + k - C) = k" using k assms by simp
    ultimately show ?thesis
      using False assms m by (simp add: ring_store_def memcpy_to_nth memcpy_to_length)
  qed
qed

lemma ring_store_miss:
  assumes "i < C" "length src \<le> C" "C \<le> length mem" "j < C"
      and "\<And>k. k < length src \<Longrightarrow> j \<noteq> (i + k) mod C"
  shows "ring_store C i src mem ! j = mem ! j"
proof (cases "i + length src \<le> C")
  case True
  have "\<not> (i \<le> j \<and> j < i + length src)"
  proof
    assume h: "i \<le> j \<and> j < i + length src"
    then have "j = (i + (j - i)) mod C" using assms(4) by simp
    moreover have "j - i < length src" using h by arith
    ultimately show False using assms(5) [of "j - i"] by simp
  qed
  moreover have "j < length mem" using assms(3,4) by simp
  ultimately show ?thesis using True by (auto simp: ring_store_def memcpy_to_nth)
next
  case False
  have a: "\<not> j < length src - (C - i)"
  proof
    assume h: "j < length src - (C - i)"
    then have "(i + (C - i + j)) mod C = j" using assms by simp
    moreover have "C - i + j < length src" using h by arith
    ultimately show False using assms(5) [of "C - i + j"] by simp
  qed
  have b: "\<not> i \<le> j"
  proof
    assume h: "i \<le> j"
    then have "j = (i + (j - i)) mod C" using assms(4) by simp
    moreover have "j - i < length src" using False assms(4) h by arith
    ultimately show False using assms(5) [of "j - i"] by simp
  qed
  have "j < length mem" using assms(3,4) by simp
  then show ?thesis
    using False a b by (auto simp: ring_store_def memcpy_to_nth memcpy_to_length)
qed

lemma mod_add_inj_le:
  fixes C :: nat
  assumes "(s + x) mod C = (s + y) mod C" "y < C" "x \<le> y"
  shows "x = y"
proof -
  have "C dvd (s + y) - (s + x)"
    using assms(1,3) mod_eq_dvd_iff_nat [of "s + x" "s + y" C] by simp
  then have "C dvd y - x" by simp
  moreover have "y - x < C" using assms(2) by simp
  ultimately have "y - x = 0" using nat_dvd_not_less by (cases "y - x = 0") auto
  then show ?thesis using assms(3) by simp
qed

lemma mod_add_inj:
  fixes C :: nat
  assumes "(s + x) mod C = (s + y) mod C" "x < C" "y < C"
  shows "x = y"
proof (cases "x \<le> y")
  case True
  then show ?thesis using mod_add_inj_le [OF assms(1,3)] by simp
next
  case False
  then have "y \<le> x" by simp
  then show ?thesis using mod_add_inj_le [OF assms(1) [symmetric] assms(2)] by simp
qed


lemma ring_view_length: "length (ring_view C mem i n) = n"
  by (simp add: ring_view_def)

lemma ring_view_nth: "k < n \<Longrightarrow> ring_view C mem i n ! k = mem ! ((i + k) mod C)"
  by (simp add: ring_view_def)

lemma ring_bytes_view: "ring_bytes b i n = ring_view (unat (capacity' b)) (arena b) i n"
  by (simp add: ring_bytes_def ring_view_def)

text \<open>A part of a view is the view from the shifted offset.\<close>

lemma ring_view_sub:
  assumes "o' + n \<le> N"
  shows "ring_view C mem ((s + o') mod C) n = take n (drop o' (ring_view C mem s N))"
proof (rule nth_equalityI)
  show "length (ring_view C mem ((s + o') mod C) n) = length (take n (drop o' (ring_view C mem s N)))"
    using assms by (simp add: ring_view_length)
next
  fix k assume "k < length (ring_view C mem ((s + o') mod C) n)"
  then have k: "k < n" by (simp add: ring_view_length)
  have "((s + o') mod C + k) mod C = (s + (o' + k)) mod C"
    by (simp add: mod_add_left_eq add.assoc)
  then show "ring_view C mem ((s + o') mod C) n ! k = take n (drop o' (ring_view C mem s N)) ! k"
    using k assms by (simp add: ring_view_nth ring_view_length)
qed

text \<open>A store inside the window of a view splices the stored bytes into the view.\<close>

lemma ring_view_store:
  assumes "s < C" "N \<le> C" "C \<le> length mem" "o' + length src \<le> N"
  shows "ring_view C (ring_store C ((s + o') mod C) src mem) s N
         = take o' (ring_view C mem s N) @ src @ drop (o' + length src) (ring_view C mem s N)"
proof (rule nth_equalityI)
  show "length (ring_view C (ring_store C ((s + o') mod C) src mem) s N)
        = length (take o' (ring_view C mem s N) @ src @ drop (o' + length src) (ring_view C mem s N))"
    using assms by (simp add: ring_view_length)
next
  fix a assume "a < length (ring_view C (ring_store C ((s + o') mod C) src mem) s N)"
  then have a: "a < N" by (simp add: ring_view_length)
  have C0: "0 < C" using assms(1) by simp
  have i: "(s + o') mod C < C" using C0 by simp
  have ls: "length src \<le> C" using assms(2,4) by simp
  let ?R = "take o' (ring_view C mem s N) @ src @ drop (o' + length src) (ring_view C mem s N)"
  show "ring_view C (ring_store C ((s + o') mod C) src mem) s N ! a = ?R ! a"
  proof (cases "o' \<le> a \<and> a < o' + length src")
    case True
    then have k: "a - o' < length src" by arith
    have "s + a = s + o' + (a - o')" using True by simp
    then have "(s + a) mod C = ((s + o') mod C + (a - o')) mod C"
      by (simp only: mod_add_left_eq)
    then have "ring_store C ((s + o') mod C) src mem ! ((s + a) mod C) = src ! (a - o')"
      using ring_store_hit [OF i ls assms(3) k] by simp
    moreover have "?R ! a = src ! (a - o')"
      using True a assms k by (simp add: nth_append ring_view_length)
    ultimately show ?thesis using a by (simp add: ring_view_nth)
  next
    case False
    have miss: "(s + a) mod C \<noteq> ((s + o') mod C + k) mod C" if "k < length src" for k
    proof
      assume "(s + a) mod C = ((s + o') mod C + k) mod C"
      then have "(s + a) mod C = (s + (o' + k)) mod C"
        by (simp add: mod_add_left_eq add.assoc)
      moreover have "a < C" using a assms(2) by simp
      moreover have "o' + k < C" using that assms(2,4) by simp
      ultimately have "a = o' + k" by (rule mod_add_inj)
      with that False show False by simp
    qed
    have j: "(s + a) mod C < C" using C0 by simp
    have "ring_store C ((s + o') mod C) src mem ! ((s + a) mod C) = mem ! ((s + a) mod C)"
      using ring_store_miss [OF i ls assms(3) j] miss by blast
    moreover have "?R ! a = mem ! ((s + a) mod C)"
    proof (cases "a < o'")
      case True
      then show ?thesis using a assms by (simp add: nth_append ring_view_length ring_view_nth)
    next
      case ge: False
      with False have le: "o' + length src \<le> a" by simp
      then have n1: "\<not> a - o' < length src" and n2: "o' + length src + (a - o' - length src) = a"
        by arith+
      have "?R ! a = ring_view C mem s N ! a"
        using a assms ge n1 n2 by (simp add: nth_append ring_view_length)
      then show ?thesis using a by (simp add: ring_view_nth)
    qed
    ultimately show ?thesis using a by (simp add: ring_view_nth)
  qed
qed

section \<open>\<^verbatim>\<open>llwrite\<close> as a store on the ring\<close>

lemma arena_update_fields [simp]:
  "valid' (arena_update f b) = valid' b" "own_memory' (arena_update f b) = own_memory' b"
  "reading' (arena_update f b) = reading' b" "writing' (arena_update f b) = writing' b"
  "capacity' (arena_update f b) = capacity' b" "capacity_mask' (arena_update f b) = capacity_mask' b"
  "start' (arena_update f b) = start' b" "end' (arena_update f b) = end' b"
  "size' (arena_update f b) = size' b"
  by (simp_all add: arena_update_def)

lemma arena_ok_memory:
  assumes "arena_ok b"
  shows "memory' b = Some (arena b)"
proof -
  from assms have p: "is_pow2 (capacity' b)" and l: "unat (capacity' b) \<le> length (arena b)"
    by (simp_all add: arena_ok_def)
  have "arena b \<noteq> []" using is_pow2_bounds(1) [OF p] l by (cases "arena b") simp_all
  then show ?thesis by (cases "memory' b") (simp_all add: arena_def)
qed

lemma arena_update_arena:
  assumes "arena_ok b"
  shows "arena (arena_update f b) = f (arena b)"
proof -
  obtain m where m: "memory' b = Some m" using arena_ok_memory [OF assms] by blast
  then show ?thesis by (simp add: arena_update_def arena_def)
qed

lemma arena_update_compose:
  "arena_update g (arena_update f b) = arena_update (\<lambda>m. g (f m)) b"
  by (simp add: arena_update_def option.map_comp comp_def)

lemma arena_update_cong:
  assumes "\<And>m. f m = g m"
  shows "arena_update f b = arena_update g b"
proof -
  have "f = g" using assms by (intro ext)
  then show ?thesis by simp
qed

lemma llwrite_store:
  assumes "arena_ok b" "idx < capacity' b" "n \<le> capacity' b" "length src = unat n"
  shows "llwrite idx src n b = arena_update (ring_store (unat (capacity' b)) (unat idx) src) b"
proof -
  from assms(1) have p: "is_pow2 (capacity' b)" by (simp add: arena_ok_def)
  note w = ring_words [OF p assms(2,3)]
  show ?thesis
  proof (cases "unat idx + unat n \<le> unat (capacity' b)")
    case True
    then have "llwrite idx src n b = arena_update (\<lambda>m. memcpy_to m (unat idx) src) b"
      using assms(4) by (simp add: llwrite_def w(2))
    also have "\<dots> = arena_update (ring_store (unat (capacity' b)) (unat idx) src) b"
      using True assms(4) by (intro arena_update_cong) (simp add: ring_store_def)
    finally show ?thesis .
  next
    case False
    have "take (unat (n - (capacity' b - idx))) (drop (unat (capacity' b - idx)) src)
            = drop (unat (capacity' b) - unat idx) src"
      using assms(4) by (simp add: w(3) w(4) [OF False])
    then have "llwrite idx src n b
        = arena_update (\<lambda>m. memcpy_to (memcpy_to m (unat idx)
              (take (unat (capacity' b) - unat idx) src)) 0
              (drop (unat (capacity' b) - unat idx) src)) b"
      using False by (simp add: llwrite_def w(2,3) Let_def arena_update_compose)
    also have "\<dots> = arena_update (ring_store (unat (capacity' b)) (unat idx) src) b"
      using False assms(4) by (intro arena_update_cong) (simp add: ring_store_def)
    finally show ?thesis .
  qed
qed

lemma llwrite_T_store:
  assumes "arena_ok b" "idx < capacity' b" "sizeof T \<le> unat (capacity' b)" "length v = sizeof T"
  shows "llwrite_T T idx v b = arena_update (ring_store (unat (capacity' b)) (unat idx) v) b"
proof -
  from assms(1) have p: "is_pow2 (capacity' b)" by (simp add: arena_ok_def)
  have C: "unat (capacity' b) \<le> 2 ^ 31" using is_pow2_bounds(2) [OF p] .
  have sz: "unat (of_nat (sizeof T) :: u32) = sizeof T"
    using C assms(3) by (intro unat_of_nat_u32) simp
  show ?thesis
  proof (cases "is_arithmetic T")
    case False
    have "of_nat (sizeof T) \<le> capacity' b" using assms(3) by (simp add: word_le_nat_alt sz)
    from llwrite_store [OF assms(1,2) this] False assms(4) show ?thesis
      by (simp add: llwrite_T_def sz)
  next
    case True
    have d: "unat (capacity' b - idx) = unat (capacity' b) - unat idx"
      using assms(2) by (intro unat_sub) simp
    show ?thesis
    proof (cases "unat idx + sizeof T \<le> unat (capacity' b)")
      case le: True
      then have "llwrite_T T idx v b = arena_update (\<lambda>m. memcpy_to m (unat idx) v) b"
        using True assms(4) by (simp add: llwrite_T_def)
      also have "\<dots> = arena_update (ring_store (unat (capacity' b)) (unat idx) v) b"
        using le assms(4) by (intro arena_update_cong) (simp add: ring_store_def)
      finally show ?thesis .
    next
      case gt: False
      then have "llwrite_T T idx v b
          = arena_update (\<lambda>m. memcpy_to (memcpy_to m (unat idx)
                (take (unat (capacity' b) - unat idx) v)) 0
                (drop (unat (capacity' b) - unat idx) v)) b"
        using True assms(4) by (simp add: llwrite_T_def Let_def d arena_update_compose)
      also have "\<dots> = arena_update (ring_store (unat (capacity' b)) (unat idx) v) b"
        using gt assms(4) by (intro arena_update_cong) (simp add: ring_store_def)
      finally show ?thesis .
    qed
  qed
qed

lemma arena_ok_update:
  assumes "arena_ok b" "\<And>m. length (f m) = length m"
  shows "arena_ok (arena_update f b)"
  using assms by (simp add: arena_ok_def arena_update_arena [OF assms(1)])

lemma store_view:
  assumes "arena_ok b" "s < unat (capacity' b)" "N \<le> unat (capacity' b)" "o' + length src \<le> N"
  shows "ring_bytes (arena_update (ring_store (unat (capacity' b)) ((s + o') mod unat (capacity' b)) src) b) s N
         = take o' (ring_bytes b s N) @ src @ drop (o' + length src) (ring_bytes b s N)"
proof -
  have l: "unat (capacity' b) \<le> length (arena b)" using assms(1) by (simp add: arena_ok_def)
  show ?thesis
    using ring_view_store [OF assms(2,3) l assms(4)]
    by (simp add: ring_bytes_view arena_update_arena [OF assms(1)])
qed

lemma store_ok:
  "arena_ok b \<Longrightarrow> arena_ok (arena_update (ring_store C i src) b)"
  by (rule arena_ok_update) (simp_all add: ring_store_length)

section \<open>The steps of a write transaction\<close>

lemma index_of_arena_update [simp]: "index_of (arena_update f b) x = index_of b x"
  by (simp add: index_of_def)

lemma index_of_flags [simp]:
  "index_of (b\<lparr>writing' := w\<rparr>) x = index_of b x"
  "index_of (b\<lparr>reading' := r\<rparr>) x = index_of b x"
  by (simp_all add: index_of_def)

lemma index_valid:
  assumes "arena_ok b"
  shows "tx_valid (t\<lparr>index' := index_of b x\<rparr>)"
proof -
  from assms have p: "is_pow2 (capacity' b)" by (simp add: arena_ok_def)
  have "unat (index_of b x) < unat (capacity' b)"
    using index_of_less [OF assms, of x] by (simp add: word_less_nat_alt)
  then have "unat (index_of b x) < 2 ^ 31" using is_pow2_bounds(2) [OF p] by simp
  then have "index_of b x \<noteq> INVALID_INDEX" by (auto simp: INVALID_INDEX_def)
  then show ?thesis by (simp add: tx_valid_def)
qed

lemma header_size_unat:
  "4 + sizeof TS < 2 ^ 32 \<Longrightarrow> unat (header_size TS) = 4 + sizeof TS"
  using unat_of_nat_u32 [of "4 + sizeof TS"] by (simp add: header_size_def)

lemma try_write_step:
  assumes "arena_ok b" "valid' b" "\<not> writing' b" "size' b \<le> capacity' b"
      and "unat (size' b) + (4 + sizeof TS) \<le> unat (capacity' b)" "length ts = sizeof TS"
  shows "try_write TS raw ts b =
           (raw\<lparr>header_size' := header_size TS, header_timestamp' := ts,
                 index' := index_of b (end' b + header_size TS),
                 available' := capacity' b - size' b - header_size TS\<rparr>,
            (arena_update (ring_store (unat (capacity' b)) (unat (index_of b (end' b + 4))) ts) b)
              \<lparr>writing' := True\<rparr>)"
proof -
  from assms(1) have p: "is_pow2 (capacity' b)" by (simp add: arena_ok_def)
  have C: "unat (capacity' b) \<le> 2 ^ 31" using is_pow2_bounds(2) [OF p] .
  have hs: "unat (header_size TS) = 4 + sizeof TS"
    using C assms(5) by (intro header_size_unat) simp
  have "unat (capacity' b - size' b) = unat (capacity' b) - unat (size' b)"
    using assms(4) by (rule unat_sub)
  then have room: "header_size TS \<le> capacity' b - size' b"
    using assms(5) by (simp add: word_le_nat_alt hs)
  have st: "llwrite_T TS (index_of b (end' b + 4)) ts b
      = arena_update (ring_store (unat (capacity' b)) (unat (index_of b (end' b + 4))) ts) b"
    using assms(5) by (intro llwrite_T_store [OF assms(1) index_of_less [OF assms(1)] _ assms(6)]) simp
  show ?thesis
    using assms(2,3) room
    by (simp add: try_write_def write_transaction_def Let_def transaction_base_def st)
qed

lemma push_back_step:
  assumes "arena_ok b" "tx_valid t" "n \<le> available' t" "index' t < capacity' b"
      and "n \<le> capacity' b" "length d = unat n"
  shows "push_back d n (t, b) =
           (True,
            t\<lparr>index' := index_of b (index' t + n), available' := available' t - n,
              header_size' := header_size' t + n\<rparr>,
            arena_update (ring_store (unat (capacity' b)) (unat (index' t)) d) b)"
proof -
  have cw: "can_write n (t, b) = (True, t)"
    using assms(2,3) by (simp add: can_write_def not_less [symmetric])
  show ?thesis
    by (simp add: push_back_def cw Let_def llwrite_store [OF assms(1,4,5,6)])
qed

lemma bytes_of_u32_length: "length (bytes_of_u32 w) = 4"
  by (simp add: bytes_of_u32_def)

lemma write_commit_step:
  assumes "arena_ok b" "tx_valid t" "end' b < capacity' b" "4 \<le> capacity' b"
  shows "write_commit (t, b) =
           (t\<lparr>index' := INVALID_INDEX\<rparr>,
            (arena_update (ring_store (unat (capacity' b)) (unat (end' b))
                (bytes_of_u32 (header_size' t))) b)
              \<lparr>end' := index_of b (end' b + header_size' t),
               size' := size' b + header_size' t, writing' := False\<rparr>)"
proof -
  have l: "length (bytes_of_u32 (header_size' t)) = unat (4 :: u32)"
    by (simp add: bytes_of_u32_length)
  show ?thesis
    using assms(2)
    by (simp add: write_commit_def Let_def llwrite_store [OF assms(1,3,4) l] write_invalidate_def)
qed

lemma arena_fields [simp]:
  "arena (b\<lparr>writing' := w\<rparr>) = arena b" "arena (b\<lparr>reading' := r\<rparr>) = arena b"
  "arena (b\<lparr>end' := e\<rparr>) = arena b" "arena (b\<lparr>start' := s\<rparr>) = arena b"
  "arena (b\<lparr>size' := z\<rparr>) = arena b"
  by (simp_all add: arena_def)

lemma arena_ok_fields [simp]:
  "arena_ok (b\<lparr>writing' := w\<rparr>) = arena_ok b" "arena_ok (b\<lparr>reading' := r\<rparr>) = arena_ok b"
  "arena_ok (b\<lparr>end' := e\<rparr>) = arena_ok b" "arena_ok (b\<lparr>start' := s\<rparr>) = arena_ok b"
  "arena_ok (b\<lparr>size' := z\<rparr>) = arena_ok b"
  by (simp_all add: arena_ok_def)

lemma ring_bytes_fields [simp]:
  "ring_bytes (b\<lparr>writing' := w\<rparr>) = ring_bytes b" "ring_bytes (b\<lparr>reading' := r\<rparr>) = ring_bytes b"
  "ring_bytes (b\<lparr>end' := e\<rparr>) = ring_bytes b" "ring_bytes (b\<lparr>start' := s\<rparr>) = ring_bytes b"
  "ring_bytes (b\<lparr>size' := z\<rparr>) = ring_bytes b"
  by (simp_all add: ring_bytes_def fun_eq_iff)

lemma ring_bytes_take:
  "n \<le> N \<Longrightarrow> take n (ring_bytes b s N) = ring_bytes b s n"
  by (simp add: ring_bytes_def take_map)

lemma ring_bytes_sub:
  assumes "o' + n \<le> N"
  shows "ring_bytes b ((s + o') mod unat (capacity' b)) n = take n (drop o' (ring_bytes b s N))"
  using ring_view_sub [OF assms] by (simp add: ring_bytes_view)

text \<open>The three stores of a record, seen through the view that starts at the oldest byte.\<close>

lemma record_splice:
  fixes V :: "u8 list"
  assumes "length V = z + (4 + length ts + length pl)" "length hd4 = 4"
  shows "take z (take (z + (4 + length ts)) (take (z + 4) V @ ts @ drop (z + 4 + length ts) V) @ pl
                  @ drop (z + (4 + length ts) + length pl)
                      (take (z + 4) V @ ts @ drop (z + 4 + length ts) V))
         @ hd4
         @ drop (z + 4) (take (z + (4 + length ts)) (take (z + 4) V @ ts @ drop (z + 4 + length ts) V) @ pl
                  @ drop (z + (4 + length ts) + length pl)
                      (take (z + 4) V @ ts @ drop (z + 4 + length ts) V))
         = take z V @ hd4 @ ts @ pl"
  using assms by (simp add: min_def)

section \<open>Writing a record keeps the records held\<close>

lemma encode_length: "length (encode TS r) = 4 + length (fst r) + length (snd r)"
  by (simp add: encode_def bytes_of_u32_length)

lemma write_record_holds:
  assumes h: "holds TS b recs" and lt: "length (fst r) = sizeof TS"
      and fit: "unat (size' b) + (4 + sizeof TS + length (snd r)) \<le> unat (capacity' b)"
  shows "fst (write_record TS raw r b) \<and> holds TS (snd (write_record TS raw r b)) (recs @ [r]) \<and>
         capacity' (snd (write_record TS raw r b)) = capacity' b"
proof -
  define C where "C = unat (capacity' b)"
  define s where "s = unat (start' b)"
  define z where "z = unat (size' b)"
  define n :: u32 where "n = of_nat (length (snd r))"
  define hs where "hs = header_size TS"
  obtain ts pl where r: "r = (ts, pl)" by (cases r)
  have lts: "length ts = sizeof TS" using lt r by simp
  from h have ao: "arena_ok b" and v: "valid' b" and nr: "\<not> reading' b" and nw: "\<not> writing' b"
    and sc: "start' b < capacity' b" and zc: "size' b \<le> capacity' b"
    and e: "unat (end' b) = (s + z) mod C"
    and la: "list_all (\<lambda>r. length (fst r) = sizeof TS) recs"
    and rb: "ring_bytes b s z = concat (map (encode TS) recs)"
    by (simp_all add: holds_def C_def s_def z_def)
  from ao have p2: "is_pow2 (capacity' b)" by (simp add: arena_ok_def)
  have C31: "C \<le> 2 ^ 31" and C0: "0 < C" using is_pow2_bounds [OF p2] by (simp_all add: C_def)
  have fit': "z + (4 + sizeof TS + length pl) \<le> C" using fit r by (simp add: z_def C_def)
  have sC: "s < C" using sc by (simp add: s_def C_def word_less_nat_alt)
  \<comment> \<open>sizes as numbers\<close>
  have hsu: "unat hs = 4 + sizeof TS"
    unfolding hs_def using fit' C31 by (intro header_size_unat) simp
  have nu: "unat n = length pl"
    unfolding n_def using fit' C31 r by (simp add: unat_of_nat_u32)
  have hnu: "unat (hs + n) = 4 + sizeof TS + length pl"
  proof -
    have "unat hs + unat n < 2 ^ LENGTH(32)" using fit' C31 by (simp add: hsu nu)
    then have "unat (hs + n) = unat hs + unat n" by (simp only: unat_add_lem)
    then show ?thesis by (simp add: hsu nu)
  qed
  have ec: "end' b < capacity' b" using C0 by (simp add: word_less_nat_alt e C_def [symmetric])
  have c4: "(4::u32) \<le> capacity' b" using fit' by (simp add: word_le_nat_alt C_def [symmetric])
  have hsc: "hs \<le> capacity' b" using fit' by (simp add: word_le_nat_alt hsu C_def [symmetric])
  have nc: "n \<le> capacity' b" using fit' by (simp add: word_le_nat_alt nu C_def [symmetric])
  have hnc: "hs + n \<le> capacity' b" using fit' by (simp add: word_le_nat_alt hnu C_def [symmetric])
  \<comment> \<open>where the three stores go\<close>
  have i1: "unat (index_of b (end' b + 4)) = (s + (z + 4)) mod C"
    using index_of_advance [OF ao ec c4] by (simp add: e C_def [symmetric] mod_add_left_eq add.assoc)
  have i2: "unat (index_of b (end' b + hs)) = (s + (z + (4 + sizeof TS))) mod C"
    using index_of_advance [OF ao ec hsc]
    by (simp add: e hsu C_def [symmetric] mod_add_left_eq add.assoc)
  have i3: "unat (end' b) = (s + (z + 0)) mod C" by (simp add: e)
  have i4: "unat (index_of b (end' b + (hs + n))) = (s + (z + (4 + sizeof TS + length pl))) mod C"
    using index_of_advance [OF ao ec hnc]
    by (simp add: e hnu C_def [symmetric] mod_add_left_eq add.assoc)
  \<comment> \<open>the transaction after \<open>try_write\<close>\<close>
  define t1 where "t1 = raw\<lparr>header_size' := hs, header_timestamp' := ts,
      index' := index_of b (end' b + hs), available' := capacity' b - size' b - hs\<rparr>"
  define b1 where "b1 = (arena_update (ring_store C ((s + (z + 4)) mod C) ts) b)\<lparr>writing' := True\<rparr>"
  have tw: "try_write TS raw ts b = (t1, b1)"
    using try_write_step [OF ao v nw zc _ lts, of raw] fit'
    by (simp add: t1_def b1_def hs_def i1 C_def [symmetric] z_def [symmetric])
  have ao1: "arena_ok b1" using ao by (simp add: b1_def store_ok)
  have cap1: "capacity' b1 = capacity' b" by (simp add: b1_def)
  have tv1: "tx_valid t1" unfolding t1_def using index_valid [OF ao] by (simp add: tx_valid_def)
  have av: "unat (available' t1) = C - z - (4 + sizeof TS)"
  proof -
    have a: "unat (capacity' b - size' b) = C - z" using zc by (simp add: unat_sub C_def z_def)
    have "hs \<le> capacity' b - size' b" using fit' by (simp add: word_le_nat_alt a hsu)
    then have "unat (capacity' b - size' b - hs) = C - z - unat hs" by (simp add: unat_sub a)
    then show ?thesis by (simp add: t1_def hsu)
  qed
  have na: "n \<le> available' t1" using fit' by (simp add: word_le_nat_alt av nu)
  have ic1: "index' t1 < capacity' b1" by (simp add: t1_def cap1 index_of_less [OF ao])
  \<comment> \<open>after \<open>push_back\<close>\<close>
  define t2 where "t2 = t1\<lparr>index' := index_of b1 (index' t1 + n), available' := available' t1 - n,
      header_size' := header_size' t1 + n\<rparr>"
  define b2 where "b2 = arena_update (ring_store C ((s + (z + (4 + sizeof TS))) mod C) pl) b1"
  have pb: "push_back pl n (t1, b1) = (True, t2, b2)"
    using push_back_step [OF ao1 tv1 na ic1 _ nu [symmetric]] nc
    by (simp add: cap1 t2_def b2_def C_def [symmetric]) (simp add: t1_def i2)
  have ao2: "arena_ok b2" using ao1 by (simp add: b2_def store_ok)
  have tv2: "tx_valid t2" unfolding t2_def using index_valid [OF ao1] by (simp add: tx_valid_def)
  have h2: "header_size' t2 = hs + n" by (simp add: t2_def t1_def)
  have f2: "end' b2 = end' b" "capacity' b2 = capacity' b" "size' b2 = size' b" "start' b2 = start' b"
    "valid' b2" "\<not> reading' b2"
    using v nr by (simp_all add: b2_def b1_def)
  \<comment> \<open>after \<open>commit\<close>\<close>
  define b3 where "b3 = arena_update (ring_store C ((s + (z + 0)) mod C) (bytes_of_u32 (hs + n))) b2"
  define b4 where "b4 = b3\<lparr>end' := index_of b (end' b + (hs + n)), size' := size' b + (hs + n),
      writing' := False\<rparr>"
  have wc: "write_commit (t2, b2) = (t2\<lparr>index' := INVALID_INDEX\<rparr>, b4)"
    using write_commit_step [OF ao2 tv2] ec c4
    by (simp add: f2 h2 b4_def b3_def C_def [symmetric] e) (simp add: index_of_def b2_def b1_def)
  have n': "of_nat (length pl) = n" by (simp add: n_def r)
  have res: "write_record TS raw r b = (True, b4)"
    by (simp add: write_record_def r tw tv1 n' pb wc)
  \<comment> \<open>the view from \<open>start_\<close>\<close>
  define N where "N = z + (4 + sizeof TS + length pl)"
  define V where "V = ring_bytes b s N"
  have NC: "N \<le> C" using fit' by (simp add: N_def)
  have lV: "length V = z + (4 + length ts + length pl)" by (simp add: V_def N_def ring_bytes_length lts)
  have V1: "ring_bytes b1 s N = take (z + 4) V @ ts @ drop (z + 4 + length ts) V"
    using store_view [OF ao, of s N "z + 4" ts] sC NC
    by (simp add: b1_def V_def C_def [symmetric] N_def lts)
  have V2: "ring_bytes b2 s N
      = take (z + (4 + length ts)) (ring_bytes b1 s N) @ pl
          @ drop (z + (4 + length ts) + length pl) (ring_bytes b1 s N)"
    using store_view [OF ao1, of s N "z + (4 + sizeof TS)" pl] sC NC
    by (simp add: b2_def cap1 C_def [symmetric] N_def lts)
  have V3: "ring_bytes b3 s N
      = take z (ring_bytes b2 s N) @ bytes_of_u32 (hs + n) @ drop (z + 4) (ring_bytes b2 s N)"
    using store_view [OF ao2, of s N "z + 0" "bytes_of_u32 (hs + n)"] sC NC
    by (simp add: b3_def f2 C_def [symmetric] N_def bytes_of_u32_length)
  have "ring_bytes b3 s N = take z V @ bytes_of_u32 (hs + n) @ ts @ pl"
    unfolding V3 V2 V1 using record_splice [OF lV bytes_of_u32_length] .
  moreover have "take z V = ring_bytes b s z" by (simp add: V_def N_def ring_bytes_take)
  moreover have "hs + n = of_nat (4 + sizeof TS + length pl)"
    by (simp add: hs_def n_def header_size_def r)
  ultimately have view: "ring_bytes b4 s N = concat (map (encode TS) (recs @ [r]))"
    by (simp add: b4_def rb encode_def r)
  \<comment> \<open>the invariant\<close>
  have "arena_ok b4" using ao2 by (simp add: b4_def b3_def store_ok)
  moreover have "valid' b4" "\<not> reading' b4" "\<not> writing' b4" "start' b4 = start' b"
    "capacity' b4 = capacity' b"
    using f2 by (simp_all add: b4_def b3_def)
  moreover have z4: "unat (size' b4) = N"
  proof -
    have "unat (size' b) + unat (hs + n) < 2 ^ LENGTH(32)" using fit' C31 by (simp add: hnu z_def)
    then have "unat (size' b + (hs + n)) = unat (size' b) + unat (hs + n)"
      by (simp only: unat_add_lem)
    then show ?thesis by (simp add: b4_def hnu N_def z_def)
  qed
  moreover have "size' b4 \<le> capacity' b" using NC z4 by (simp add: word_le_nat_alt C_def)
  moreover have "unat (end' b4) = (s + N) mod C" by (simp add: b4_def i4 N_def)
  moreover have "list_all (\<lambda>r. length (fst r) = sizeof TS) (recs @ [r])" using la lt by simp
  ultimately have "holds TS b4 (recs @ [r]) \<and> capacity' b4 = capacity' b"
    using sc view by (simp add: holds_def s_def C_def)
  with res show ?thesis by simp
qed

section \<open>Reading takes the oldest record\<close>

lemma u32_round_trip: "u32_of_bytes (bytes_of_u32 w) = w"
proof (rule bit_word_eqI)
  fix n assume n: "n < LENGTH(32)"
  consider "n < 8" | "8 \<le> n" "n < 16" | "16 \<le> n" "n < 24" | "24 \<le> n" "n < 32"
    using n by fastforce
  then show "bit (u32_of_bytes (bytes_of_u32 w)) n = bit w n"
  proof cases
    case 1
    then show ?thesis by (auto simp: u32_of_bytes_def bytes_of_u32_def bit_simps)
  next
    case 2
    then show ?thesis by (auto simp: u32_of_bytes_def bytes_of_u32_def bit_simps)
  next
    case 3
    then show ?thesis by (auto simp: u32_of_bytes_def bytes_of_u32_def bit_simps)
  next
    case 4
    then show ?thesis by (auto simp: u32_of_bytes_def bytes_of_u32_def bit_simps)
  qed
qed

lemma pop_front_delivers:
  assumes "read_ok t b" "tx_valid t" "n \<le> available' t"
  shows "fst (pop_front n True (t, b))"
    and "snd (snd (pop_front n True (t, b)))
           = t\<lparr>index' := index_of b (index' t + n), available' := available' t - n\<rparr>"
    and "concat (map (delivered b) (fst (snd (pop_front n True (t, b)))))
           = ring_bytes b (unat (index' t)) (unat n)"
proof -
  from assms(1) have ao: "arena_ok b" and i: "index' t < capacity' b"
    and ac: "available' t \<le> capacity' b" by (simp_all add: read_ok_def)
  from ao have p: "is_pow2 (capacity' b)" and l: "unat (capacity' b) \<le> length (arena b)"
    by (simp_all add: arena_ok_def)
  have nc: "n \<le> capacity' b" using assms(3) ac by simp
  note rw = ring_words [OF p i nc]
  have iu: "unat (index' t) < unat (capacity' b)" using i by (simp add: word_less_nat_alt)
  have nu: "unat n \<le> unat (capacity' b)" using nc by (simp add: word_le_nat_alt)
  have cr: "can_read n t" using assms(2,3) by (simp add: can_read_def)
  have mn: "min (available' t) n = n" using assms(3) by (simp add: min_def)
  show "fst (pop_front n True (t, b))" by (simp add: pop_front_def cr Let_def)
  show "snd (snd (pop_front n True (t, b)))
          = t\<lparr>index' := index_of b (index' t + n), available' := available' t - n\<rparr>"
    by (simp add: pop_front_def cr Let_def mn)
  show "concat (map (delivered b) (fst (snd (pop_front n True (t, b)))))
          = ring_bytes b (unat (index' t)) (unat n)"
  proof (cases "unat (index' t) + unat n \<le> unat (capacity' b)")
    case True
    then show ?thesis
      using ring_read [OF iu nu l]
      by (simp add: pop_front_def cr Let_def mn rw(2) delivered_def memcpy_from_def ring_bytes_def)
  next
    case False
    then show ?thesis
      using ring_read [OF iu nu l]
      by (simp add: pop_front_def cr Let_def mn rw(2) delivered_def memcpy_from_def ring_bytes_def
            rw(3) rw(4) [OF False])
  qed
qed

lemma read_record_holds:
  assumes h: "holds TS b (r # recs)"
  shows "fst (read_record TS raw b) = Some r \<and> holds TS (snd (read_record TS raw b)) recs"
proof -
  define C where "C = unat (capacity' b)"
  define s where "s = unat (start' b)"
  define z where "z = unat (size' b)"
  define hs where "hs = header_size TS"
  obtain ts pl where r: "r = (ts, pl)" by (cases r)
  define L where "L = 4 + sizeof TS + length pl"
  define hz :: u32 where "hz = of_nat L"
  define W where "W = concat (map (encode TS) recs)"
  from h have ao: "arena_ok b" and v: "valid' b" and nr: "\<not> reading' b" and nw: "\<not> writing' b"
    and sc: "start' b < capacity' b" and zc: "size' b \<le> capacity' b"
    and e: "unat (end' b) = (s + z) mod C"
    and lts: "length ts = sizeof TS"
    and la: "list_all (\<lambda>r. length (fst r) = sizeof TS) recs"
    and rb: "ring_bytes b s z = bytes_of_u32 hz @ ts @ pl @ W"
    by (simp_all add: holds_def C_def s_def z_def r encode_def hz_def L_def W_def)
  from ao have p2: "is_pow2 (capacity' b)" by (simp add: arena_ok_def)
  have C31: "C \<le> 2 ^ 31" and C0: "0 < C" using is_pow2_bounds [OF p2] by (simp_all add: C_def)
  have zC: "z \<le> C" using zc by (simp add: z_def C_def word_le_nat_alt)
  have "length (ring_bytes b s z) = z" by (rule ring_bytes_length)
  then have zL: "z = L + length W" by (simp add: rb bytes_of_u32_length L_def lts)
  have LC: "L \<le> C" using zL zC by simp
  have hzu: "unat hz = L" unfolding hz_def using LC C31 by (intro unat_of_nat_u32) simp
  have hsu: "unat hs = 4 + sizeof TS"
    unfolding hs_def using LC C31 by (intro header_size_unat) (simp add: L_def)
  have c4: "(4::u32) \<le> capacity' b" using LC by (simp add: word_le_nat_alt C_def [symmetric] L_def)
  have hsc: "hs \<le> capacity' b" using LC by (simp add: word_le_nat_alt hsu C_def [symmetric] L_def)
  have hzc: "hz \<le> capacity' b" using LC by (simp add: word_le_nat_alt hzu C_def [symmetric])
  have hshz: "hs \<le> hz" by (simp add: word_le_nat_alt hsu hzu L_def)
  have pu: "unat (hz - hs) = length pl" using hshz by (simp add: unat_sub hsu hzu L_def)
  have zpos: "0 < size' b" using zL by (simp add: word_less_nat_alt z_def [symmetric] L_def)
  \<comment> \<open>the header as \<open>try_read\<close> sees it\<close>
  have "llread_T uint32_t (start' b) b = ring_bytes b s 4"
    using llread_T_ring [OF ao sc, of uint32_t] LC
    by (simp add: uint32_t_def s_def C_def [symmetric] L_def)
  also have "\<dots> = take 4 (ring_bytes b s z)" using zL by (simp add: ring_bytes_take L_def)
  also have "\<dots> = bytes_of_u32 hz" by (simp add: rb bytes_of_u32_length)
  finally have rd_size: "u32_of_bytes (llread_T uint32_t (start' b) b) = hz"
    by (simp add: u32_round_trip)
  have i1: "unat (index_of b (start' b + 4)) = (s + 4) mod C"
    using index_of_advance [OF ao sc c4] by (simp add: s_def C_def)
  have "llread_T TS (index_of b (start' b + 4)) b = ring_bytes b ((s + 4) mod C) (sizeof TS)"
    using llread_T_ring [OF ao index_of_less [OF ao], of TS "start' b + 4"] LC
    by (simp add: i1 C_def [symmetric] L_def)
  also have "\<dots> = take (sizeof TS) (drop 4 (ring_bytes b s z))"
    using zL by (intro ring_bytes_sub [of 4 "sizeof TS" z b s, unfolded C_def [symmetric]])
      (simp add: L_def)
  also have "\<dots> = ts" by (simp add: rb bytes_of_u32_length lts)
  finally have rd_ts: "llread_T TS (index_of b (start' b + 4)) b = ts" .
  define t1 where "t1 = raw\<lparr>header_size' := hz, header_timestamp' := ts,
      index' := index_of b (start' b + hs), available' := hz - hs\<rparr>"
  define b1 where "b1 = b\<lparr>reading' := True\<rparr>"
  have tr: "try_read TS raw b = (t1, b1)"
    using v nr zpos
    by (simp add: try_read_def read_transaction_def Let_def transaction_base_def rd_size rd_ts
          t1_def b1_def hs_def)
  have tv1: "tx_valid t1" unfolding t1_def using index_valid [OF ao] by (simp add: tx_valid_def)
  have ro: "read_ok t1 b1"
    using ao index_of_less [OF ao, of "start' b + hs"] hzc hshz
    by (simp add: read_ok_def b1_def t1_def word_le_nat_alt unat_sub)
  have txs: "tx_size TS t1 = hz - hs" by (simp add: tx_size_def t1_def hs_def)
  have i2: "unat (index' t1) = (s + (4 + sizeof TS)) mod C"
    using index_of_advance [OF ao sc hsc] by (simp add: t1_def s_def C_def hsu)
  note pf = pop_front_delivers [OF ro tv1, of "hz - hs"]
  have pf1: "fst (pop_front (hz - hs) True (t1, b1))" by (rule pf(1)) (simp add: t1_def)
  define t2 where "t2 = snd (snd (pop_front (hz - hs) True (t1, b1)))"
  have t2: "t2 = t1\<lparr>index' := index_of b1 (index' t1 + (hz - hs)),
                     available' := available' t1 - (hz - hs)\<rparr>"
    unfolding t2_def by (rule pf(2)) (simp add: t1_def)
  have "concat (map (delivered b1) (fst (snd (pop_front (hz - hs) True (t1, b1)))))
          = ring_bytes b1 (unat (index' t1)) (unat (hz - hs))"
    by (rule pf(3)) (simp add: t1_def)
  also have "\<dots> = ring_bytes b ((s + (4 + sizeof TS)) mod C) (length pl)"
    by (simp add: b1_def i2 pu)
  also have "\<dots> = take (length pl) (drop (4 + sizeof TS) (ring_bytes b s z))"
    using zL by (intro ring_bytes_sub [of "4 + sizeof TS" "length pl" z b s, unfolded C_def [symmetric]])
      (simp add: L_def)
  also have "\<dots> = pl" by (simp add: rb bytes_of_u32_length lts)
  finally have payload:
    "concat (map (delivered b1) (fst (snd (pop_front (hz - hs) True (t1, b1))))) = pl" .
  have tv2: "tx_valid t2" unfolding t2 using index_valid [OF ao, where t = t1] by (simp add: b1_def tx_valid_def)
  define b2 where "b2 = b\<lparr>start' := index_of b (start' b + hz), size' := size' b - hz\<rparr>"
  have rc: "snd (read_commit (t2, b1)) = b2"
    using tv2 nr by (simp add: read_commit_def Let_def b1_def b2_def t2 t1_def)
  obtain ok calls tt where pe: "pop_front (hz - hs) True (t1, b1) = (ok, calls, tt)"
    by (cases "pop_front (hz - hs) True (t1, b1)") auto
  have ok: "ok" using pf1 by (simp add: pe)
  have cl: "concat (map (delivered b1) calls) = pl" using payload by (simp add: pe)
  have tt: "tt = t2" by (simp add: t2_def pe)
  have ts1: "tx_timestamp t1 = ts" by (simp add: tx_timestamp_def t1_def)
  have res: "read_record TS raw b = (Some r, b2)"
    by (simp add: read_record_def tr tv1 txs pe ok cl tt rc ts1 r)
  \<comment> \<open>the invariant\<close>
  have s2: "unat (start' b2) = (s + L) mod C"
    using index_of_advance [OF ao sc hzc] by (simp add: b2_def s_def C_def hzu)
  have z2: "unat (size' b2) = length W"
  proof -
    have "hz \<le> size' b" using zL by (simp add: word_le_nat_alt hzu z_def [symmetric])
    then show ?thesis using zL by (simp add: b2_def unat_sub hzu z_def [symmetric])
  qed
  have "ring_bytes b2 (unat (start' b2)) (unat (size' b2)) = ring_bytes b ((s + L) mod C) (length W)"
    by (simp add: s2 z2) (simp add: b2_def)
  also have "\<dots> = take (length W) (drop L (ring_bytes b s z))"
    using zL by (intro ring_bytes_sub [of L "length W" z b s, unfolded C_def [symmetric]]) simp
  also have "\<dots> = W" by (simp add: rb bytes_of_u32_length lts L_def)
  finally have view: "ring_bytes b2 (unat (start' b2)) (unat (size' b2)) = W" .
  have "arena_ok b2" using ao by (simp add: b2_def)
  moreover have "valid' b2" "\<not> reading' b2" "\<not> writing' b2" "capacity' b2 = capacity' b"
    "end' b2 = end' b"
    using v nr nw by (simp_all add: b2_def)
  moreover have "start' b2 < capacity' b" by (simp add: b2_def index_of_less [OF ao])
  moreover have "size' b2 \<le> capacity' b" using zL zC by (simp add: word_le_nat_alt z2 C_def [symmetric])
  moreover have "unat (end' b) = (unat (start' b2) + unat (size' b2)) mod C"
    using zL by (simp add: e s2 z2 mod_add_left_eq add.assoc)
  ultimately have "holds TS b2 recs"
    using la view by (simp add: holds_def C_def W_def)
  with res show ?thesis by simp
qed

section \<open>Round trip\<close>

lemma holds_size:
  assumes "holds TS b recs"
  shows "unat (size' b) = records_size TS recs"
proof -
  from assms have la: "list_all (\<lambda>r. length (fst r) = sizeof TS) recs"
    and rb: "ring_bytes b (unat (start' b)) (unat (size' b)) = concat (map (encode TS) recs)"
    by (simp_all add: holds_def)
  have "length (concat (map (encode TS) recs)) = records_size TS recs"
    using la by (induction recs) (simp_all add: records_size_def encode_length)
  then show ?thesis using arg_cong [OF rb, of length] by (simp add: ring_bytes_length)
qed

lemma write_records_holds:
  assumes "holds TS b held" "list_all (\<lambda>r. length (fst r) = sizeof TS) recs"
      and "unat (size' b) + records_size TS recs \<le> unat (capacity' b)"
  shows "fst (write_records TS raw recs b) \<and> holds TS (snd (write_records TS raw recs b)) (held @ recs)"
  using assms
proof (induction recs arbitrary: b held)
  case Nil
  then show ?case by simp
next
  case (Cons r rs)
  from Cons.prems(2) have lr: "length (fst r) = sizeof TS"
    and lrs: "list_all (\<lambda>r. length (fst r) = sizeof TS) rs" by simp_all
  have fit: "unat (size' b) + (4 + sizeof TS + length (snd r)) \<le> unat (capacity' b)"
    using Cons.prems(3) by (simp add: records_size_def)
  obtain ok b1 where w: "write_record TS raw r b = (ok, b1)" by (cases "write_record TS raw r b")
  from write_record_holds [OF Cons.prems(1) lr fit, of raw] w
  have ok: "ok" and h1: "holds TS b1 (held @ [r])" and c1: "capacity' b1 = capacity' b"
    by simp_all
  have "unat (size' b1) = unat (size' b) + (4 + sizeof TS + length (snd r))"
    using holds_size [OF h1] holds_size [OF Cons.prems(1)] by (simp add: records_size_def)
  then have "unat (size' b1) + records_size TS rs \<le> unat (capacity' b1)"
    using Cons.prems(3) by (simp add: c1 records_size_def)
  from Cons.IH [OF h1 lrs this] show ?case by (simp add: w ok)
qed

lemma read_records_holds:
  assumes "holds TS b (recs @ rest)"
  shows "fst (read_records TS raw (length recs) b) = map Some recs \<and>
         holds TS (snd (read_records TS raw (length recs) b)) rest"
  using assms
proof (induction recs arbitrary: b)
  case Nil
  then show ?case by simp
next
  case (Cons r rs)
  obtain x b1 where rr: "read_record TS raw b = (x, b1)" by (cases "read_record TS raw b")
  from read_record_holds [of TS b r "rs @ rest" raw] Cons.prems rr
  have x: "x = Some r" and h1: "holds TS b1 (rs @ rest)" by simp_all
  from Cons.IH [OF h1] show ?case by (auto simp: rr x split: prod.splits)
qed

text \<open>
  Claim C1.  Take an idle, empty buffer with a configured arena (\<^verbatim>\<open>size_\<close> is 0 and
  \<^verbatim>\<open>end_ = start_\<close>, anywhere in the arena) and records \<open>(ts, payload)\<close> whose timestamps
  are values of the timestamp type and whose sizes, headers included, add up to at
  most the capacity.  Writing them in order, one committed write transaction each,
  succeeds; reading as many read transactions then yields the same timestamps and
  payload bytes in the same order, and leaves the buffer empty.
\<close>

theorem round_trip:
  assumes "arena_ok b" "valid' b" "\<not> reading' b" "\<not> writing' b"
      and "size' b = 0" "end' b = start' b" "start' b < capacity' b"
      and "list_all (\<lambda>r. length (fst r) = sizeof TS) recs"
      and "records_size TS recs \<le> unat (capacity' b)"
  shows "fst (write_records TS raw recs b) \<and>
         fst (read_records TS raw' (length recs) (snd (write_records TS raw recs b)))
           = map Some recs \<and>
         buffer_size (snd (read_records TS raw' (length recs) (snd (write_records TS raw recs b)))) = 0"
proof -
  have "unat (start' b) < unat (capacity' b)" using assms(7) by (simp add: word_less_nat_alt)
  then have h0: "holds TS b []"
    using assms(1-7) by (simp add: holds_def ring_bytes_def)
  have fit: "unat (size' b) + records_size TS recs \<le> unat (capacity' b)"
    using assms(5,9) by simp
  from write_records_holds [OF h0 assms(8) fit, of raw]
  have w: "fst (write_records TS raw recs b)"
    and h1: "holds TS (snd (write_records TS raw recs b)) (recs @ [])" by simp_all
  from read_records_holds [OF h1, of raw']
  have r: "fst (read_records TS raw' (length recs) (snd (write_records TS raw recs b))) = map Some recs"
    and h2: "holds TS (snd (read_records TS raw' (length recs) (snd (write_records TS raw recs b)))) []"
    by simp_all
  have "unat (size' (snd (read_records TS raw' (length recs) (snd (write_records TS raw recs b))))) = 0"
    using holds_size [OF h2] by (simp add: records_size_def)
  then show ?thesis using w r by (simp add: buffer_size_def unat_eq_0)
qed


lemma buffer32_drained:
  "snd (read_record float_t raw_tx buffer32_rec) =
     \<lparr>valid' = True, own_memory' = True, reading' = False, writing' = False,
      capacity' = 32, capacity_mask' = 31, start' = 20, end' = 20, size' = 0,
      memory' = Some [20, 0, 0, 0, 0, 0, 0x80, 0x3F, 170, 170, 170, 170, 170, 170, 170, 170,
        170, 170, 170, 170, 0, 0, 0, 0, 0, 0, 0, 0, 0, 0, 0, 0]\<rparr>"
  by code_simp

text \<open>
  Claim C1 on \<open>buffer32\<close> after one record was written and read, so that both cursors
  are at 20: a 24-byte record that spans the end of the arena and a header-only record
  fill the 32 bytes and come back as written.
\<close>

theorem round_trip_witness:
  "arena_ok (snd (read_record float_t raw_tx buffer32_rec)) \<and>
   valid' (snd (read_record float_t raw_tx buffer32_rec)) \<and>
   \<not> reading' (snd (read_record float_t raw_tx buffer32_rec)) \<and>
   \<not> writing' (snd (read_record float_t raw_tx buffer32_rec)) \<and>
   size' (snd (read_record float_t raw_tx buffer32_rec)) = 0 \<and>
   end' (snd (read_record float_t raw_tx buffer32_rec)) = 20 \<and>
   start' (snd (read_record float_t raw_tx buffer32_rec)) = 20 \<and>
   capacity' (snd (read_record float_t raw_tx buffer32_rec)) = 32 \<and>
   records_size float_t [([0, 0, 0, 0x40], replicate 16 0xBB), ([0, 0, 0x40, 0x40], [])] = 32 \<and>
   fst (write_records float_t raw_tx
          [([0, 0, 0, 0x40], replicate 16 0xBB), ([0, 0, 0x40, 0x40], [])]
          (snd (read_record float_t raw_tx buffer32_rec))) \<and>
   fst (read_records float_t raw_tx 2
          (snd (write_records float_t raw_tx
             [([0, 0, 0, 0x40], replicate 16 0xBB), ([0, 0, 0x40, 0x40], [])]
             (snd (read_record float_t raw_tx buffer32_rec)))))
     = [Some ([0, 0, 0, 0x40], replicate 16 0xBB), Some ([0, 0, 0x40, 0x40], [])]"
proof -
  let ?b = "snd (read_record float_t raw_tx buffer32_rec)"
  let ?recs = "[([0, 0, 0, 0x40], replicate 16 0xBB), ([0, 0, 0x40, 0x40], [])] :: (u8 list \<times> u8 list) list"
  have a: "arena_ok ?b" by (simp add: buffer32_drained arena_ok_def is_pow2_iff arena_def)
  have f: "valid' ?b" "\<not> reading' ?b" "\<not> writing' ?b" "size' ?b = 0" "end' ?b = start' ?b"
    "start' ?b < capacity' ?b" "end' ?b = 20" "start' ?b = 20" "capacity' ?b = 32"
    by (simp_all add: buffer32_drained)
  have l: "list_all (\<lambda>r. length (fst r) = sizeof float_t) ?recs" by (simp add: float_t_def)
  have s: "records_size float_t ?recs = 32" by (simp add: records_size_def float_t_def)
  have c: "records_size float_t ?recs \<le> unat (capacity' ?b)" by (simp add: s f(9))
  have len: "length ?recs = 2" by simp
  have rt: "fst (write_records float_t raw_tx ?recs ?b) \<and>
      fst (read_records float_t raw_tx 2 (snd (write_records float_t raw_tx ?recs ?b)))
        = map Some ?recs \<and>
      buffer_size (snd (read_records float_t raw_tx 2 (snd (write_records float_t raw_tx ?recs ?b)))) = 0"
    using round_trip [OF a f(1-6) l c, of raw_tx raw_tx] by (simp only: len)
  have rt1: "fst (write_records float_t raw_tx ?recs ?b)" using rt by (rule conjunct1)
  have rt2: "fst (read_records float_t raw_tx 2 (snd (write_records float_t raw_tx ?recs ?b)))
      = [Some ([0, 0, 0, 0x40], replicate 16 0xBB), Some ([0, 0, 0x40, 0x40], [])]"
    using rt [THEN conjunct2, THEN conjunct1] by (simp only: list.map)
  show ?thesis by (intro conjI a f(1-4,7-9) s rt1 rt2)
qed

end
